theory Spec2Isabelle
  imports Main
begin

section \<open>The alphabet policy\<close>

text \<open>
  \<open>Trie<Alphabet, Value>\<close> is generic in an alphabet policy that the repository does not
  define: a constant \<open>Alphabet::size\<close> and a function \<open>Alphabet::ord\<close> from \<open>char\<close> to
  a slot index, with \<open>-1\<close> for a letter outside the alphabet. It is a parameter here.
\<close>

record alphabet =
  alpha_size :: nat
  alpha_ord :: "char \<Rightarrow> int"

section \<open>Failures\<close>

text \<open>
  The three \<open>std::out_of_range\<close> exceptions of \<open>trie.h\<close>, by their messages:
  "Incorrect key", "Letter is not member of alphabet", "Key not found!".
\<close>

datatype exn = IncorrectKey | LetterNotMember | KeyNotFound

text \<open>
  What C++ leaves undefined and the code can run into: an array index outside
  \<open>children_\<close>, following a pointer to an object that is not alive, following a null
  pointer, \<open>front\<close>/\<open>back\<close> of an empty vector, \<open>pop_back\<close> on an empty string.
\<close>

datatype ub = SlotOutOfRange | DanglingPointer | NullPointer | EmptyVector | PopEmptyString

datatype fault = Raised exn | Undefined ub

text \<open>
  A \<open>const\<close> member function returns \<open>fault + 'a\<close>. A member function that mutates
  returns an outcome: the result with the state it leaves, an exception with the state
  at the \<open>throw\<close>, or undefined behaviour.
\<close>

datatype ('a, 's) outcome = Return 'a 's | Throw exn 's | UB ub

fun fail :: "fault \<Rightarrow> 's \<Rightarrow> ('a, 's) outcome" where
  "fail (Raised e) s = Throw e s"
| "fail (Undefined u) s = UB u"

section \<open>Nodes\<close>

text \<open>
  \<open>class Node\<close>. A \<open>std::unique_ptr<Node>\<close> slot owns its child, so the owned nodes
  form a tree and a slot is \<open>None\<close> (null) or \<open>Some\<close> child. \<open>parent_\<close> is a raw,
  non-owning \<open>Node*\<close>: it is kept as the address of the object it designates, and
  \<open>addr\<close> is the address of the node itself (its identity). The members
  \<open>children_\<close>, \<open>parent_\<close>, \<open>value_\<close>, \<open>key_\<close> and \<open>Trie::root_\<close> are
  \<open>m_children\<close>, \<open>m_parent\<close>, \<open>m_value\<close>, \<open>m_key\<close> and \<open>m_root\<close>.
\<close>

datatype 'v node =
  Node (addr: nat) (m_parent: "nat option") (m_children: "'v node option list")
       (m_value: "'v option") (m_key: char)

text \<open>\<open>Node()\<close> and \<open>Node(Node* parent)\<close>, constructed at address \<open>a\<close>.\<close>

definition new_Node :: "alphabet \<Rightarrow> nat \<Rightarrow> nat option \<Rightarrow> 'v node" where
  "new_Node A a p = Node a p (replicate (alpha_size A) None) None (CHR 0x00)"

definition set_children :: "'v node option list \<Rightarrow> 'v node \<Rightarrow> 'v node" where
  "set_children cs n = Node (addr n) (m_parent n) cs (m_value n) (m_key n)"

definition set_slot :: "nat \<Rightarrow> 'v node option \<Rightarrow> 'v node \<Rightarrow> 'v node" where
  "set_slot i c n = set_children ((m_children n)[i := c]) n"

definition set_key :: "char \<Rightarrow> 'v node \<Rightarrow> 'v node" where
  "set_key k n = Node (addr n) (m_parent n) (m_children n) (m_value n) k"

definition setValue :: "'v \<Rightarrow> 'v node \<Rightarrow> 'v node" where
  "setValue v n = Node (addr n) (m_parent n) (m_children n) (Some v) (m_key n)"

definition removeValue :: "'v node \<Rightarrow> 'v node" where
  "removeValue n = Node (addr n) (m_parent n) (m_children n) None (m_key n)"

definition removeChildren :: "'v node \<Rightarrow> 'v node" where
  "removeChildren n = set_children (map (\<lambda>_. None) (m_children n)) n"

definition hasValue :: "'v node \<Rightarrow> bool" where
  "hasValue n = (m_value n \<noteq> None)"

definition hasChildren :: "'v node \<Rightarrow> bool" where
  "hasChildren n = list_ex (\<lambda>c. c \<noteq> None) (m_children n)"

definition hasParent :: "'v node \<Rightarrow> bool" where
  "hasParent n = (m_parent n \<noteq> None)"

text \<open>
  The loop of \<open>Node::child\<close>: the first slot that holds a child labelled \<open>letter\<close>,
  with the child found there.
\<close>

fun child_scan :: "char \<Rightarrow> 'v node option list \<Rightarrow> (nat \<times> 'v node) option" where
  "child_scan letter [] = None"
| "child_scan letter (None # cs) = map_option (apfst Suc) (child_scan letter cs)"
| "child_scan letter (Some c # cs) =
     (if m_key c = letter then Some (0, c)
      else map_option (apfst Suc) (child_scan letter cs))"

definition child :: "alphabet \<Rightarrow> 'v node \<Rightarrow> char \<Rightarrow> fault + (nat \<times> 'v node) option" where
  "child A n letter =
     (if alpha_ord A letter = - 1 then Inl (Raised LetterNotMember)
      else Inr (child_scan letter (m_children n)))"

text \<open>
  \<open>Node::createChild\<close>: the new node is allocated at the next free address \<open>nxt\<close>;
  the result is the receiver with the child installed, the slot, and the next free
  address. The index is not checked by the code.
\<close>

definition createChild :: "alphabet \<Rightarrow> char \<Rightarrow> 'v node \<Rightarrow> nat \<Rightarrow> fault + ('v node \<times> nat \<times> nat)" where
  "createChild A key this nxt =
     (let i = alpha_ord A key in
      if 0 \<le> i \<and> nat i < alpha_size A \<and> nat i < length (m_children this)
      then Inr (set_slot (nat i) (Some (set_key key (new_Node A nxt (Some (addr this))))) this,
                nat i, Suc nxt)
      else Inl (Undefined SlotOutOfRange))"

text \<open>
  \<open>Node::removeChild\<close>: the first slot whose pointer equals \<open>ptr\<close> is reset, which
  destroys the subtree it owned.
\<close>

fun removeChild_scan :: "nat option \<Rightarrow> 'v node option list \<Rightarrow> bool \<times> 'v node option list" where
  "removeChild_scan ptr [] = (False, [])"
| "removeChild_scan ptr (c # cs) =
     (if map_option addr c = ptr then (True, None # cs)
      else (case removeChild_scan ptr cs of (b, cs') \<Rightarrow> (b, c # cs')))"

definition removeChild :: "nat option \<Rightarrow> 'v node \<Rightarrow> bool \<times> 'v node" where
  "removeChild ptr n =
     (case removeChild_scan ptr (m_children n) of (b, cs) \<Rightarrow> (b, set_children cs n))"

text \<open>
  \<open>Node::getPath\<close>. A \<open>Node*\<close> in the returned vector is the node it designates
  (\<open>None\<close> is \<open>nullptr\<close>); \<open>addr\<close> of it is the pointer's value.
\<close>

fun getPath_loop :: "alphabet \<Rightarrow> 'v node option list \<Rightarrow> 'v node \<Rightarrow> string \<Rightarrow> fault + 'v node option list" where
  "getPath_loop A path node [] = Inr path"
| "getPath_loop A path node (c # cs) =
     (case child A node c of
        Inl e \<Rightarrow> Inl e
      | Inr None \<Rightarrow> Inr (path @ [None])
      | Inr (Some (i, ch)) \<Rightarrow> getPath_loop A (path @ [Some ch]) ch cs)"

definition getPath :: "alphabet \<Rightarrow> 'v node \<Rightarrow> string \<Rightarrow> fault + 'v node option list" where
  "getPath A this key = getPath_loop A [Some this] this key"

section \<open>The trie\<close>

datatype 'v trie = Trie (m_root: "'v node")

text \<open>\<open>Trie() = default\<close>, for an object placed at address \<open>a\<close>.\<close>

definition Trie_new :: "alphabet \<Rightarrow> nat \<Rightarrow> 'v trie \<times> nat" where
  "Trie_new A a = (Trie (new_Node A a None), Suc a)"

definition isInAlphabet :: "alphabet \<Rightarrow> char \<Rightarrow> bool" where
  "isInAlphabet A letter = (alpha_ord A letter \<noteq> - 1)"

fun isKeyCorrect :: "alphabet \<Rightarrow> string \<Rightarrow> bool" where
  "isKeyCorrect A [] = True"
| "isKeyCorrect A (letter # key) = (if \<not> isInAlphabet A letter then False else isKeyCorrect A key)"

definition empty :: "'v trie \<Rightarrow> bool" where
  "empty t = (\<not> (hasValue (m_root t) \<or> hasChildren (m_root t)))"

text \<open>\<open>path.back()\<close> and \<open>path.front()\<close> of a vector.\<close>

definition vector_back :: "'a list \<Rightarrow> fault + 'a" where
  "vector_back xs = (case rev xs of [] \<Rightarrow> Inl (Undefined EmptyVector) | x # _ \<Rightarrow> Inr x)"

definition search :: "alphabet \<Rightarrow> 'v trie \<Rightarrow> string \<Rightarrow> fault + 'v option" where
  "search A t key =
     (if \<not> isKeyCorrect A key then Inl (Raised IncorrectKey)
      else case getPath A (m_root t) key of
             Inl e \<Rightarrow> Inl e
           | Inr path \<Rightarrow>
               (case vector_back path of
                  Inl e \<Rightarrow> Inl e
                | Inr (Some n) \<Rightarrow> Inr (m_value n)
                | Inr None \<Rightarrow> Inr None))"

definition at :: "alphabet \<Rightarrow> 'v trie \<Rightarrow> string \<Rightarrow> fault + 'v" where
  "at A t key =
     (if \<not> isKeyCorrect A key then Inl (Raised IncorrectKey)
      else case getPath A (m_root t) key of
             Inl e \<Rightarrow> Inl e
           | Inr path \<Rightarrow>
               (case vector_back path of
                  Inl e \<Rightarrow> Inl e
                | Inr None \<Rightarrow> Inl (Raised KeyNotFound)
                | Inr (Some n) \<Rightarrow>
                    (case m_value n of
                       None \<Rightarrow> Inl (Raised KeyNotFound)
                     | Some v \<Rightarrow> Inr v)))"


section \<open>Insertion\<close>

text \<open>
  The walk of \<open>Trie::insert\<close> moves a cursor \<open>node\<close> down the tree and mutates the node
  under it. Here the walk descends into the owned child and writes the child it leaves
  back into its slot, which is the same mutation on an ownership tree.
\<close>

fun in_slot :: "'v node \<Rightarrow> nat \<Rightarrow> ('a, 'v node \<times> nat) outcome \<Rightarrow> ('a, 'v node \<times> nat) outcome" where
  "in_slot n i (Return x (c, nxt)) = Return x (set_slot i (Some c) n, nxt)"
| "in_slot n i (Throw e (c, nxt)) = Throw e (set_slot i (Some c) n, nxt)"
| "in_slot n i (UB u) = UB u"

fun insert_loop :: "alphabet \<Rightarrow> 'v node \<Rightarrow> string \<Rightarrow> 'v \<Rightarrow> nat \<Rightarrow> (bool, 'v node \<times> nat) outcome" where
  "insert_loop A node [] v nxt =
     (if \<not> hasValue node then Return True (setValue v node, nxt)
      else Return False (node, nxt))"
| "insert_loop A node (c # cs) v nxt =
     (case child A node c of
        Inl e \<Rightarrow> fail e (node, nxt)
      | Inr None \<Rightarrow>
          (case createChild A c node nxt of
             Inl e \<Rightarrow> fail e (node, nxt)
           | Inr (node', i, nxt') \<Rightarrow>
               (case m_children node' ! i of
                  None \<Rightarrow> UB NullPointer
                | Some ch \<Rightarrow> in_slot node' i (insert_loop A ch cs v nxt')))
      | Inr (Some (i, tmpNode)) \<Rightarrow> in_slot node i (insert_loop A tmpNode cs v nxt))"

fun on_root :: "('a, 'v node \<times> nat) outcome \<Rightarrow> ('a, 'v trie \<times> nat) outcome" where
  "on_root (Return x (r, nxt)) = Return x (Trie r, nxt)"
| "on_root (Throw e (r, nxt)) = Throw e (Trie r, nxt)"
| "on_root (UB u) = UB u"

text \<open>The state of a mutating call is the trie and the next free address.\<close>

definition insert_trie :: "alphabet \<Rightarrow> string \<Rightarrow> 'v \<Rightarrow> 'v trie \<times> nat \<Rightarrow> (bool, 'v trie \<times> nat) outcome" where
  "insert_trie A key v s =
     (if \<not> isKeyCorrect A key then Throw IncorrectKey s
      else on_root (insert_loop A (m_root (fst s)) key v (snd s)))"

section \<open>Removal\<close>

text \<open>
  Following a \<open>Node*\<close> held by the program: the node of the ownership tree that lives at
  that address, found in preorder; \<open>None\<close> when no node of the tree lives there.
\<close>

fun deref :: "nat \<Rightarrow> 'v node \<Rightarrow> 'v node option"
and deref_slots :: "nat \<Rightarrow> 'v node option list \<Rightarrow> 'v node option" where
  "deref a (Node b p cs v k) = (if b = a then Some (Node b p cs v k) else deref_slots a cs)"
| "deref_slots a [] = None"
| "deref_slots a (None # cs) = deref_slots a cs"
| "deref_slots a (Some c # cs) =
     (case deref a c of Some n \<Rightarrow> Some n | None \<Rightarrow> deref_slots a cs)"

text \<open>Mutating the node at an address through a pointer to it.\<close>

fun modify :: "nat \<Rightarrow> ('v node \<Rightarrow> 'v node) \<Rightarrow> 'v node \<Rightarrow> 'v node"
and modify_slots :: "nat \<Rightarrow> ('v node \<Rightarrow> 'v node) \<Rightarrow> 'v node option list \<Rightarrow> 'v node option list" where
  "modify a f (Node b p cs v k) =
     (if b = a then f (Node b p cs v k) else Node b p (modify_slots a f cs) v k)"
| "modify_slots a f [] = []"
| "modify_slots a f (None # cs) = None # modify_slots a f cs"
| "modify_slots a f (Some c # cs) = Some (modify a f c) # modify_slots a f cs"

text \<open>
  The \<open>for (Node* node : path)\<close> loop of \<open>Trie::remove\<close> over the reversed path, on the
  tree owned by the root. The flag tells whether the loop was left by its \<open>return\<close>.
\<close>

fun remove_loop :: "nat option list \<Rightarrow> 'v node \<Rightarrow> (bool, 'v node) outcome" where
  "remove_loop [] root = Return False root"
| "remove_loop (None # path) root = UB NullPointer"
| "remove_loop (Some a # path) root =
     (case deref a root of
        None \<Rightarrow> UB DanglingPointer
      | Some node \<Rightarrow>
          if hasValue node \<or> hasChildren node \<or> \<not> hasParent node then Return True root
          else (case m_parent node of
                  None \<Rightarrow> UB NullPointer
                | Some pa \<Rightarrow>
                    (case deref pa root of
                       None \<Rightarrow> UB DanglingPointer
                     | Some _ \<Rightarrow>
                         remove_loop path (modify pa (\<lambda>p. snd (removeChild (Some a) p)) root))))"

definition remove_trie :: "alphabet \<Rightarrow> string \<Rightarrow> 'v trie \<Rightarrow> (unit, 'v trie) outcome" where
  "remove_trie A key t =
     (if \<not> isKeyCorrect A key then Throw IncorrectKey t
      else case getPath A (m_root t) key of
             Inl e \<Rightarrow> fail e t
           | Inr path \<Rightarrow>
               (case rev path of
                  [] \<Rightarrow> UB EmptyVector
                | None # _ \<Rightarrow> Return () t
                | Some removeNode # _ \<Rightarrow>
                    (case remove_loop (map (map_option addr) (rev path))
                            (modify (addr removeNode) removeValue (m_root t)) of
                       Return _ r \<Rightarrow> Return () (Trie r)
                     | Throw e r \<Rightarrow> Throw e (Trie r)
                     | UB u \<Rightarrow> UB u)))"

definition clear :: "'v trie \<Rightarrow> 'v trie" where
  "clear t = Trie (removeValue (removeChildren (m_root t)))"

section \<open>Default access\<close>

text \<open>\<open>Trie::operator[]\<close>; \<open>dflt\<close> is the value-initialised \<open>Value()\<close>.\<close>

definition index_trie :: "alphabet \<Rightarrow> 'v \<Rightarrow> string \<Rightarrow> 'v trie \<times> nat \<Rightarrow> ('v, 'v trie \<times> nat) outcome" where
  "index_trie A dflt key s =
     (if \<not> isKeyCorrect A key then Throw IncorrectKey s
      else case search A (fst s) key of
             Inl e \<Rightarrow> fail e s
           | Inr (Some v) \<Rightarrow> Return v s
           | Inr None \<Rightarrow>
               (case insert_trie A key dflt s of
                  Return _ s' \<Rightarrow>
                    (case at A (fst s') key of
                       Inl e \<Rightarrow> fail e s'
                     | Inr v \<Rightarrow> Return v s')
                | Throw e s' \<Rightarrow> Throw e s'
                | UB u \<Rightarrow> UB u))"

section \<open>Enumeration\<close>

text \<open>
  \<open>Trie::getItems\<close> with its two reference parameters \<open>items\<close> and \<open>key\<close> passed and
  returned. \<open>key.pop_back()\<close> has undefined behaviour on an empty string.
\<close>

fun getItems :: "'v node \<Rightarrow> (string \<times> 'v) list \<Rightarrow> string \<Rightarrow> fault + ((string \<times> 'v) list \<times> string)"
and getItems_slots :: "'v node option list \<Rightarrow> (string \<times> 'v) list \<Rightarrow> string \<Rightarrow> fault + ((string \<times> 'v) list \<times> string)" where
  "getItems (Node a p cs v k) items key =
     (let key1 = (if p \<noteq> None then key @ [k] else key);
          items1 = (case v of Some x \<Rightarrow> items @ [(key1, x)] | None \<Rightarrow> items)
      in case getItems_slots cs items1 key1 of
           Inl e \<Rightarrow> Inl e
         | Inr (items2, key2) \<Rightarrow>
             (if key2 = [] then Inl (Undefined PopEmptyString)
              else Inr (items2, butlast key2)))"
| "getItems_slots [] items key = Inr (items, key)"
| "getItems_slots (None # cs) items key = getItems_slots cs items key"
| "getItems_slots (Some c # cs) items key =
     (case getItems c items key of
        Inl e \<Rightarrow> Inl e
      | Inr (items', key') \<Rightarrow> getItems_slots cs items' key')"

definition items :: "'v trie \<Rightarrow> fault + (string \<times> 'v) list" where
  "items t = (case getItems (m_root t) [] [] of Inl e \<Rightarrow> Inl e | Inr (list, key) \<Rightarrow> Inr list)"

section \<open>Copying\<close>

text \<open>
  \<open>Trie::copyTrieRec\<close>: \<open>thisNode\<close> is mutated, \<open>otherNode\<close> is read; new nodes take the
  next free addresses.
\<close>

fun copyTrieRec :: "alphabet \<Rightarrow> 'v node \<Rightarrow> 'v node \<Rightarrow> nat \<Rightarrow> fault + ('v node \<times> nat)"
and copyTrieRec_slots :: "alphabet \<Rightarrow> 'v node \<Rightarrow> 'v node option list \<Rightarrow> nat \<Rightarrow> fault + ('v node \<times> nat)" where
  "copyTrieRec A thisNode (Node b p cs v k) nxt =
     copyTrieRec_slots A
       (case v of
          Some x \<Rightarrow> if \<not> hasValue thisNode then setValue x thisNode else thisNode
        | None \<Rightarrow> thisNode)
       cs nxt"
| "copyTrieRec_slots A thisNode [] nxt = Inr (thisNode, nxt)"
| "copyTrieRec_slots A thisNode (None # cs) nxt = copyTrieRec_slots A thisNode cs nxt"
| "copyTrieRec_slots A thisNode (Some c # cs) nxt =
     (case createChild A (m_key c) thisNode nxt of
        Inl e \<Rightarrow> Inl e
      | Inr (thisNode', i, nxt') \<Rightarrow>
          (case m_children thisNode' ! i of
             None \<Rightarrow> Inl (Undefined NullPointer)
           | Some thisChild \<Rightarrow>
               (case copyTrieRec A thisChild c nxt' of
                  Inl e \<Rightarrow> Inl e
                | Inr (thisChild', nxt'') \<Rightarrow>
                    copyTrieRec_slots A (set_slot i (Some thisChild') thisNode') cs nxt'')))"

text \<open>
  The copy constructor \<open>Trie(const Trie&)\<close> for an object placed at the next free
  address: \<open>root_\<close> is default-initialised, then \<open>copyTrie\<close> runs.
\<close>

definition copyTrie :: "alphabet \<Rightarrow> 'v trie \<Rightarrow> 'v trie \<Rightarrow> nat \<Rightarrow> fault + ('v trie \<times> nat)" where
  "copyTrie A this otherTrie nxt =
     (if addr (m_root this) \<noteq> addr (m_root otherTrie)
      then (case copyTrieRec A (m_root this) (m_root otherTrie) nxt of
              Inl e \<Rightarrow> Inl e
            | Inr (r, nxt') \<Rightarrow> Inr (Trie r, nxt'))
      else Inr (this, nxt))"

definition Trie_copy :: "alphabet \<Rightarrow> 'v trie \<Rightarrow> nat \<Rightarrow> fault + ('v trie \<times> nat)" where
  "Trie_copy A otherTrie nxt =
     (case Trie_new A nxt of (this, nxt') \<Rightarrow> copyTrie A this otherTrie nxt')"

text \<open>
  \<open>std::swap\<close> of two \<open>Node\<close> objects moves the members across; each object stays at
  its address, and no node that was moved across is told about its new owner.
\<close>

definition swap_Node :: "'v node \<Rightarrow> 'v node \<Rightarrow> 'v node \<times> 'v node" where
  "swap_Node x y =
     (Node (addr x) (m_parent y) (m_children y) (m_value y) (m_key y),
      Node (addr y) (m_parent x) (m_children x) (m_value x) (m_key x))"

text \<open>
  \<open>Trie& operator=(Trie otherTrie)\<close> called with an lvalue: the parameter is
  copy-constructed, the roots are swapped, and the parameter is destroyed on return
  with what it then owns.
\<close>

definition assign_trie :: "alphabet \<Rightarrow> 'v trie \<Rightarrow> 'v trie \<Rightarrow> nat \<Rightarrow> fault + ('v trie \<times> nat)" where
  "assign_trie A this source nxt =
     (case Trie_copy A source nxt of
        Inl e \<Rightarrow> Inl e
      | Inr (otherTrie, nxt') \<Rightarrow>
          Inr (Trie (fst (swap_Node (m_root this) (m_root otherTrie))), nxt'))"


section \<open>Notions used to state the properties\<close>

text \<open>
  A key whose every symbol is a member of the alphabet: \<open>ord\<close> gives a slot index
  below \<open>size\<close>.
\<close>

definition valid_key :: "alphabet \<Rightarrow> string \<Rightarrow> bool" where
  "valid_key A key =
     list_all (\<lambda>c. 0 \<le> alpha_ord A c \<and> alpha_ord A c < int (alpha_size A)) key"

text \<open>The node a key leads to, by the steps of \<open>Node::child\<close>; \<open>None\<close> when there is none.\<close>

fun node_at :: "'v node \<Rightarrow> string \<Rightarrow> 'v node option" where
  "node_at n [] = Some n"
| "node_at n (c # cs) =
     (case child_scan c (m_children n) of
        None \<Rightarrow> None
      | Some (i, ch) \<Rightarrow> node_at ch cs)"

text \<open>
  The same node said without the loop: \<open>Node::child\<close> returns the first child, in the
  order of the array, that is labelled with the letter, and the node of a key is reached
  from the receiver by one such child for each symbol of the key.
\<close>

definition first_labelled :: "char \<Rightarrow> 'v node option list \<Rightarrow> 'v node option" where
  "first_labelled letter cs =
     (case find (\<lambda>x. case x of None \<Rightarrow> False | Some c \<Rightarrow> m_key c = letter) cs of
        None \<Rightarrow> None
      | Some x \<Rightarrow> x)"

fun key_node :: "'v node \<Rightarrow> string \<Rightarrow> 'v node option" where
  "key_node n [] = Some n"
| "key_node n (c # cs) =
     (case first_labelled c (m_children n) of
        None \<Rightarrow> None
      | Some ch \<Rightarrow> key_node ch cs)"

text \<open>What is stored under a key: the value of the node the key leads to, if any.\<close>

definition value_at :: "'v node \<Rightarrow> string \<Rightarrow> 'v option" where
  "value_at n key = (case node_at n key of None \<Rightarrow> None | Some m \<Rightarrow> m_value m)"

text \<open>Every \<open>children_\<close> array has \<open>Alphabet::size\<close> slots, as its type says.\<close>

fun sized :: "alphabet \<Rightarrow> 'v node \<Rightarrow> bool"
and sized_slots :: "alphabet \<Rightarrow> 'v node option list \<Rightarrow> bool" where
  "sized A (Node b p cs v k) = (length cs = alpha_size A \<and> sized_slots A cs)"
| "sized_slots A [] = True"
| "sized_slots A (None # cs) = sized_slots A cs"
| "sized_slots A (Some c # cs) = (sized A c \<and> sized_slots A cs)"

text \<open>The addresses of the nodes of a tree; distinct objects have distinct addresses.\<close>

fun addrs :: "'v node \<Rightarrow> nat list"
and addrs_slots :: "'v node option list \<Rightarrow> nat list" where
  "addrs (Node b p cs v k) = b # addrs_slots cs"
| "addrs_slots [] = []"
| "addrs_slots (None # cs) = addrs_slots cs"
| "addrs_slots (Some c # cs) = addrs c @ addrs_slots cs"

text \<open>Every owned node's \<open>parent_\<close> designates the node that owns it.\<close>

fun owned :: "'v node \<Rightarrow> bool"
and owned_slots :: "nat \<Rightarrow> 'v node option list \<Rightarrow> bool" where
  "owned (Node b p cs v k) = owned_slots b cs"
| "owned_slots b [] = True"
| "owned_slots b (None # cs) = owned_slots b cs"
| "owned_slots b (Some c # cs) = (m_parent c = Some b \<and> owned c \<and> owned_slots b cs)"

text \<open>No owned node is a dead end: each holds a value or has a child.\<close>

fun no_dead :: "'v node \<Rightarrow> bool"
and no_dead_slots :: "'v node option list \<Rightarrow> bool" where
  "no_dead (Node b p cs v k) = no_dead_slots cs"
| "no_dead_slots [] = True"
| "no_dead_slots (None # cs) = no_dead_slots cs"
| "no_dead_slots (Some c # cs) = ((hasValue c \<or> hasChildren c) \<and> no_dead c \<and> no_dead_slots cs)"

text \<open>
  The state the operations leave a trie and the allocator in: arrays of the alphabet's
  size, nodes at distinct addresses below the next free one, consistent parent
  back-references under a root without parent, and no dead end.
\<close>

definition invariant :: "alphabet \<Rightarrow> 'v trie \<times> nat \<Rightarrow> bool" where
  "invariant A s =
     (sized A (m_root (fst s)) \<and> distinct (addrs (m_root (fst s))) \<and>
      owned (m_root (fst s)) \<and> m_parent (m_root (fst s)) = None \<and>
      no_dead (m_root (fst s)) \<and> list_all (\<lambda>a. a < snd s) (addrs (m_root (fst s))))"

section \<open>The removal cascade as the specification words it\<close>

text \<open>
  The specification describes the cascade on positions, with no pointer in it: after
  clearing the target node's value, walk the reversed path from the target back toward
  the root; at each node stop as soon as it still holds a value, still has any child,
  or is the root; otherwise detach it from its parent and continue upward. A position
  is the key prefix that leads to the node.
\<close>

fun update_at :: "'v node \<Rightarrow> string \<Rightarrow> ('v node \<Rightarrow> 'v node) \<Rightarrow> 'v node" where
  "update_at n [] f = f n"
| "update_at n (c # cs) f =
     (case child_scan c (m_children n) of
        None \<Rightarrow> n
      | Some (i, ch) \<Rightarrow> set_slot i (Some (update_at ch cs f)) n)"

definition drop_child :: "char \<Rightarrow> 'v node \<Rightarrow> 'v node" where
  "drop_child c n =
     (case child_scan c (m_children n) of
        None \<Rightarrow> n
      | Some (i, ch) \<Rightarrow> set_slot i None n)"

function cascade_spec :: "'v node \<Rightarrow> string \<Rightarrow> 'v node" where
  "cascade_spec root pos =
     (case node_at root pos of
        None \<Rightarrow> root
      | Some n \<Rightarrow>
          if hasValue n \<or> hasChildren n \<or> pos = [] then root
          else cascade_spec (update_at root (butlast pos) (drop_child (last pos))) (butlast pos))"
  by pat_completeness auto
termination
  by (relation "measure (\<lambda>(root, pos). length pos)") auto

definition remove_spec :: "'v node \<Rightarrow> string \<Rightarrow> 'v node" where
  "remove_spec root key =
     (case node_at root key of
        None \<Rightarrow> root
      | Some n \<Rightarrow> cascade_spec (update_at root key removeValue) key)"

section \<open>A four-letter alphabet and the tries of the scenarios\<close>

definition cart :: alphabet where
  "cart = \<lparr>alpha_size = 4,
            alpha_ord = (\<lambda>c. if c = CHR ''a'' then 0 else if c = CHR ''c'' then 1
                              else if c = CHR ''r'' then 2 else if c = CHR ''t'' then 3
                              else - 1)\<rparr>"

definition no_slots :: "'v node option list" where
  "no_slots = [None, None, None, None]"

text \<open>A trie at address 0 that holds \<open>cat\<close>, then \<open>cat\<close> and \<open>car\<close>, then \<open>car\<close> alone.\<close>

definition trie_cat :: "'v \<Rightarrow> 'v trie" where
  "trie_cat v1 =
     Trie (Node 0 None
       [None,
        Some (Node 1 (Some 0)
          [Some (Node 2 (Some 1)
             [None, None, None, Some (Node 3 (Some 2) no_slots (Some v1) CHR ''t'')]
             None CHR ''a''),
           None, None, None]
          None CHR ''c''),
        None, None]
       None CHR 0x00)"

definition trie_cat_car :: "'v \<Rightarrow> 'v \<Rightarrow> 'v trie" where
  "trie_cat_car v1 v2 =
     Trie (Node 0 None
       [None,
        Some (Node 1 (Some 0)
          [Some (Node 2 (Some 1)
             [None, None,
              Some (Node 4 (Some 2) no_slots (Some v2) CHR ''r''),
              Some (Node 3 (Some 2) no_slots (Some v1) CHR ''t'')]
             None CHR ''a''),
           None, None, None]
          None CHR ''c''),
        None, None]
       None CHR 0x00)"

definition trie_car :: "'v \<Rightarrow> 'v trie" where
  "trie_car v2 =
     Trie (Node 0 None
       [None,
        Some (Node 1 (Some 0)
          [Some (Node 2 (Some 1)
             [None, None, Some (Node 4 (Some 2) no_slots (Some v2) CHR ''r''), None]
             None CHR ''a''),
           None, None, None]
          None CHR ''c''),
        None, None]
       None CHR 0x00)"

text \<open>A trie at address \<open>a\<close> that holds nothing, and one that holds \<open>a\<close>.\<close>

definition trie_none :: "nat \<Rightarrow> 'v trie" where
  "trie_none a = Trie (Node a None no_slots None CHR 0x00)"

definition trie_a :: "nat \<Rightarrow> nat \<Rightarrow> nat \<Rightarrow> 'v \<Rightarrow> 'v trie" where
  "trie_a a p b v =
     Trie (Node a None [Some (Node b (Some p) no_slots (Some v) CHR ''a''), None, None, None]
             None CHR 0x00)"

lemma isKeyCorrect_iff: "isKeyCorrect A key = (\<forall>c\<in>set key. alpha_ord A c \<noteq> - 1)"
  by (induction key) (auto simp: isInAlphabet_def)

lemma valid_key_correct: "valid_key A key \<Longrightarrow> isKeyCorrect A key"
  by (auto simp: valid_key_def isKeyCorrect_iff list_all_iff)

lemma child_scan_SomeD:
  "child_scan c cs = Some (i, ch) \<Longrightarrow> i < length cs \<and> cs ! i = Some ch \<and> m_key ch = c"
  by (induction c cs arbitrary: i rule: child_scan.induct) (auto split: if_splits)

lemma vector_back_last: "p \<noteq> [] \<Longrightarrow> vector_back p = Inr (last p)"
  by (cases p rule: rev_cases) (auto simp: vector_back_def)

lemma getPath_loop_acc:
  "getPath_loop A acc n key =
     (case getPath_loop A [] n key of Inl e \<Rightarrow> Inl e | Inr p \<Rightarrow> Inr (acc @ p))"
proof (induction key arbitrary: acc n)
  case Nil
  show ?case by simp
next
  case (Cons c cs)
  show ?case
  proof (cases "child A n c")
    case (Inl e)
    then show ?thesis by simp
  next
    case (Inr r)
    show ?thesis
    proof (cases r)
      case None
      with Inr show ?thesis by simp
    next
      case (Some ich)
      obtain i ch where ich: "ich = (i, ch)" by (cases ich)
      have a: "getPath_loop A (acc @ [Some ch]) ch cs =
          (case getPath_loop A [] ch cs of Inl e \<Rightarrow> Inl e | Inr p \<Rightarrow> Inr ((acc @ [Some ch]) @ p))"
        by (rule Cons.IH)
      have b: "getPath_loop A [Some ch] ch cs =
          (case getPath_loop A [] ch cs of Inl e \<Rightarrow> Inl e | Inr p \<Rightarrow> Inr ([Some ch] @ p))"
        by (rule Cons.IH)
      show ?thesis using Inr Some ich a b by (simp split: sum.splits)
    qed
  qed
qed

lemma getPath_Nil: "getPath A n [] = Inr [Some n]"
  by (simp add: getPath_def)

lemma getPath_Cons:
  "getPath A n (c # cs) =
     (case child A n c of
        Inl e \<Rightarrow> Inl e
      | Inr None \<Rightarrow> Inr [Some n, None]
      | Inr (Some (i, ch)) \<Rightarrow>
          (case getPath A ch cs of Inl e \<Rightarrow> Inl e | Inr p \<Rightarrow> Inr (Some n # p)))"
proof -
  have a: "\<And>ch. getPath_loop A [Some n, Some ch] ch cs =
      (case getPath_loop A [] ch cs of Inl e \<Rightarrow> Inl e | Inr p \<Rightarrow> Inr ([Some n, Some ch] @ p))"
    by (rule getPath_loop_acc)
  have b: "\<And>ch. getPath_loop A [Some ch] ch cs =
      (case getPath_loop A [] ch cs of Inl e \<Rightarrow> Inl e | Inr p \<Rightarrow> Inr ([Some ch] @ p))"
    by (rule getPath_loop_acc)
  show ?thesis
    by (simp add: getPath_def a b split: sum.splits option.splits prod.splits)
qed

lemma getPath_returns: "isKeyCorrect A key \<Longrightarrow> \<exists>p. getPath A n key = Inr p"
proof (induction key arbitrary: n)
  case Nil
  show ?case by (simp add: getPath_Nil)
next
  case (Cons c cs)
  then have c: "alpha_ord A c \<noteq> - 1" and cs: "isKeyCorrect A cs"
    by (auto simp: isInAlphabet_def split: if_splits)
  show ?case
  proof (cases "child_scan c (m_children n)")
    case None
    with c show ?thesis by (simp add: getPath_Cons child_def)
  next
    case (Some ich)
    obtain i ch where "ich = (i, ch)" by (cases ich)
    moreover obtain p where "getPath A ch cs = Inr p" using Cons.IH [OF cs] by blast
    ultimately show ?thesis using c Some by (simp add: getPath_Cons child_def)
  qed
qed

lemma getPath_props:
  "getPath A n key = Inr p \<Longrightarrow>
     p \<noteq> [] \<and> hd p = Some n \<and> length p \<le> length key + 1 \<and> last p = node_at n key \<and>
     (node_at n key \<noteq> None \<longrightarrow> length p = length key + 1)"
proof (induction key arbitrary: n p)
  case Nil
  then show ?case by (auto simp: getPath_Nil)
next
  case (Cons c cs)
  show ?case
  proof (cases "child A n c")
    case (Inl e)
    with Cons.prems show ?thesis by (simp add: getPath_Cons)
  next
    case (Inr r)
    then have r: "r = child_scan c (m_children n)"
      by (auto simp: child_def split: if_splits)
    show ?thesis
    proof (cases r)
      case None
      with Inr Cons.prems r show ?thesis by (auto simp: getPath_Cons)
    next
      case (Some ich)
      obtain i ch where ich: "ich = (i, ch)" by (cases ich)
      from Cons.prems Inr Some ich obtain q where q: "getPath A ch cs = Inr q" "p = Some n # q"
        by (auto simp: getPath_Cons split: sum.splits)
      have sc: "child_scan c (m_children n) = Some (i, ch)" using r Some ich by simp
      from Cons.IH [OF q(1)] q(2) sc show ?thesis by auto
    qed
  qed
qed

lemma search_node_at:
  "isKeyCorrect A key \<Longrightarrow>
   search A t key = Inr (case node_at (m_root t) key of None \<Rightarrow> None | Some n \<Rightarrow> m_value n)"
proof -
  assume k: "isKeyCorrect A key"
  then obtain p where p: "getPath A (m_root t) key = Inr p" using getPath_returns by blast
  from getPath_props [OF p] have "p \<noteq> []" "last p = node_at (m_root t) key" by auto
  then show ?thesis using k p by (simp add: search_def vector_back_last split: option.splits)
qed

lemma at_node_at:
  "isKeyCorrect A key \<Longrightarrow>
   at A t key = (case node_at (m_root t) key of
                   None \<Rightarrow> Inl (Raised KeyNotFound)
                 | Some n \<Rightarrow> (case m_value n of None \<Rightarrow> Inl (Raised KeyNotFound) | Some v \<Rightarrow> Inr v))"
proof -
  assume k: "isKeyCorrect A key"
  then obtain p where p: "getPath A (m_root t) key = Inr p" using getPath_returns by blast
  from getPath_props [OF p] have "p \<noteq> []" "last p = node_at (m_root t) key" by auto
  then show ?thesis using k p by (simp add: at_def vector_back_last split: option.splits)
qed

lemmas node_ops = new_Node_def set_children_def set_slot_def set_key_def setValue_def
  removeValue_def removeChildren_def hasValue_def hasChildren_def hasParent_def child_def
  createChild_def removeChild_def isInAlphabet_def

lemmas scenario = cart_def no_slots_def trie_cat_def trie_cat_car_def trie_car_def
  trie_none_def trie_a_def Trie_new_def

section \<open>Keys outside the alphabet\<close>

text \<open>
  Claim C5. For a key with at least one symbol whose \<open>ord\<close> is invalid (\<open>-1\<close>), each of
  \<open>search\<close>, \<open>at\<close>, \<open>insert\<close>, \<open>remove\<close> and \<open>operator[]\<close> raises "Incorrect key",
  and the mutating ones raise it in the state they were called in: nothing was mutated.
\<close>

theorem alphabet_violation_before_mutation:
  assumes "\<exists>c\<in>set key. alpha_ord A c = - 1"
  shows "search A t key = Inl (Raised IncorrectKey) \<and>
         at A t key = Inl (Raised IncorrectKey) \<and>
         insert_trie A key v (t, nxt) = Throw IncorrectKey (t, nxt) \<and>
         remove_trie A key t = Throw IncorrectKey t \<and>
         index_trie A dflt key (t, nxt) = Throw IncorrectKey (t, nxt)"
proof -
  from assms have "\<not> isKeyCorrect A key" by (simp add: isKeyCorrect_iff)
  then show ?thesis
    by (simp add: search_def at_def insert_trie_def remove_trie_def index_trie_def)
qed

text \<open>The key \<open>cxt\<close> over the four-letter alphabet, on the trie holding \<open>cat\<close> and \<open>car\<close>.\<close>

theorem alphabet_violation_before_mutation_witness:
  "(\<exists>c\<in>set ''cxt''. alpha_ord cart c = - 1) \<and>
   search cart (trie_cat_car (1::nat) 2) ''cxt'' = Inl (Raised IncorrectKey) \<and>
   at cart (trie_cat_car (1::nat) 2) ''cxt'' = Inl (Raised IncorrectKey) \<and>
   insert_trie cart ''cxt'' 7 (trie_cat_car (1::nat) 2, 5) = Throw IncorrectKey (trie_cat_car 1 2, 5) \<and>
   remove_trie cart ''cxt'' (trie_cat_car (1::nat) 2) = Throw IncorrectKey (trie_cat_car 1 2) \<and>
   index_trie cart 0 ''cxt'' (trie_cat_car (1::nat) 2, 5) = Throw IncorrectKey (trie_cat_car 1 2, 5)"
proof -
  have h: "\<exists>c\<in>set ''cxt''. alpha_ord cart c = - 1" by (simp add: cart_def)
  show ?thesis
    using h alphabet_violation_before_mutation [OF h, of "trie_cat_car (1::nat) 2" 7 5 0]
    by simp
qed

section \<open>Enumeration pops an empty key\<close>

lemma getItems_slots_replicate: "getItems_slots (replicate m None) acc key = Inr (acc, key)"
  by (induction m) simp_all

text \<open>
  Claim C10. The claim is that every \<open>pop_back\<close> during \<open>items()\<close> finds a non-empty
  string. \<open>getItems\<close> appends to the key only for a node with a parent and pops for
  every node, so the root's frame pops the key it was called with, the empty string: on
  a new trie over any alphabet, and on the trie holding \<open>cat\<close> and \<open>car\<close>, after its
  children returned both items and the empty key.
\<close>

theorem items_pops_empty_key:
  "items (fst (Trie_new A a)) = Inl (Undefined PopEmptyString) \<and>
   getItems_slots (m_children (m_root (trie_cat_car v1 v2))) [] [] =
     Inr ([(''car'', v2), (''cat'', v1)], []) \<and>
   items (trie_cat_car v1 v2) = Inl (Undefined PopEmptyString)"
  by (simp add: items_def Trie_new_def new_Node_def getItems_slots_replicate
        trie_cat_car_def no_slots_def)

section \<open>Copy assignment\<close>

text \<open>
  Claim C8. The claim is that copy construction and copy assignment both leave a copy
  whose parent back-references are consistent and which can be mutated on its own. A
  trie at address 10 is assigned the trie holding \<open>a\<close>: the parameter of
  \<open>operator=\<close> is the copy at address 20, and after the swap the node for \<open>a\<close> is
  owned by the root at 10 with \<open>parent_\<close> still 20, the address of the parameter that
  is destroyed on return. \<open>remove("a")\<close> on the assigned trie follows that pointer.
  The copy constructor alone leaves the back-reference consistent, and the same
  \<open>remove\<close> empties the copy.
\<close>

theorem assign_leaves_dangling_parent:
  "insert_trie cart ''a'' v (Trie_new cart 0) = Return True (trie_a 0 0 1 v, 2) \<and>
   fst (Trie_new cart 10) = trie_none 10 \<and>
   assign_trie cart (trie_none 10) (trie_a 0 0 1 v) 20 = Inr (trie_a 10 20 21 v, 22) \<and>
   \<not> owned (m_root (trie_a 10 20 21 v)) \<and>
   remove_trie cart ''a'' (trie_a 10 20 21 v) = UB DanglingPointer \<and>
   Trie_copy cart (trie_a 0 0 1 v) 20 = Inr (trie_a 20 20 21 v, 22) \<and>
   owned (m_root (trie_a 20 20 21 v)) \<and>
   remove_trie cart ''a'' (trie_a 20 20 21 v) = Return () (trie_none 20)"
  by (simp add: scenario node_ops insert_trie_def remove_trie_def getPath_def
        assign_trie_def Trie_copy_def copyTrie_def swap_Node_def eval_nat_numeral)

section \<open>Insertion and lookup\<close>

lemma search_value_at:
  "isKeyCorrect A key \<Longrightarrow> search A t key = Inr (value_at (m_root t) key)"
  by (simp add: search_node_at value_at_def)

lemma sized_node: "sized A n = (length (m_children n) = alpha_size A \<and> sized_slots A (m_children n))"
  by (cases n) simp

lemma sized_slots_nth:
  "sized_slots A cs \<Longrightarrow> i < length cs \<Longrightarrow> cs ! i = Some ch \<Longrightarrow> sized A ch"
proof (induction cs arbitrary: i)
  case Nil
  then show ?case by simp
next
  case (Cons x xs)
  then show ?case by (cases x; cases i) auto
qed

lemma sized_slots_update:
  "sized_slots A cs \<Longrightarrow> sized A ch \<Longrightarrow> sized_slots A (cs[i := Some ch])"
proof (induction cs arbitrary: i)
  case Nil
  then show ?case by simp
next
  case (Cons x xs)
  then show ?case by (cases x; cases i) auto
qed

lemma sized_slots_replicate: "sized_slots A (replicate m None)"
  by (induction m) simp_all

lemma child_scan_replicate: "child_scan c (replicate m None) = None"
  by (induction m) simp_all

lemma child_scan_update_Some:
  "child_scan c cs = Some (i, ch) \<Longrightarrow> m_key ch' = c \<Longrightarrow>
   child_scan c (cs[i := Some ch']) = Some (i, ch')"
  by (induction c cs arbitrary: i rule: child_scan.induct) (auto split: if_splits)

lemma child_scan_update_None:
  "child_scan c cs = None \<Longrightarrow> i < length cs \<Longrightarrow> m_key ch' = c \<Longrightarrow>
   child_scan c (cs[i := Some ch']) = Some (i, ch')"
proof (induction c cs arbitrary: i rule: child_scan.induct)
  case (1 letter)
  then show ?case by simp
next
  case (2 letter cs)
  then show ?case by (cases i) auto
next
  case (3 letter c cs)
  then show ?case by (cases i) (auto split: if_splits)
qed

lemma set_slot_same: "i < length (m_children n) \<Longrightarrow> m_children n ! i = Some ch \<Longrightarrow> set_slot i (Some ch) n = n"
  by (cases n) (simp add: set_slot_def set_children_def list_update_same_conv)

lemma set_slot_sel [simp]:
  "addr (set_slot i c n) = addr n" "m_key (set_slot i c n) = m_key n"
  "m_parent (set_slot i c n) = m_parent n" "m_value (set_slot i c n) = m_value n"
  "m_children (set_slot i c n) = (m_children n)[i := c]"
  by (simp_all add: set_slot_def set_children_def)

lemma insert_loop_spec:
  assumes "valid_key A key" and "sized A n"
  shows "\<exists>n' nxt'. insert_loop A n key v nxt = Return (value_at n key = None) (n', nxt') \<and>
           m_key n' = m_key n \<and> addr n' = addr n \<and> m_parent n' = m_parent n \<and> sized A n' \<and>
           value_at n' key = (if value_at n key = None then Some v else value_at n key) \<and>
           node_at n' key \<noteq> None \<and>
           (value_at n key \<noteq> None \<longrightarrow> n' = n \<and> nxt' = nxt)"
  using assms
proof (induction key arbitrary: n nxt)
  case Nil
  then show ?case
    by (cases n) (auto simp: value_at_def hasValue_def setValue_def)
next
  case (Cons c cs)
  from Cons.prems have c: "0 \<le> alpha_ord A c" "alpha_ord A c < int (alpha_size A)"
    and cs: "valid_key A cs"
    by (auto simp: valid_key_def)
  from Cons.prems have len: "length (m_children n) = alpha_size A"
    and ss: "sized_slots A (m_children n)"
    by (auto simp: sized_node)
  from c have ch: "child A n c = Inr (child_scan c (m_children n))"
    by (auto simp: child_def)
  show ?case
  proof (cases "child_scan c (m_children n)")
    case (Some ich)
    obtain i tmp where ich: "ich = (i, tmp)" by (cases ich)
    with Some have sc: "child_scan c (m_children n) = Some (i, tmp)" by simp
    from child_scan_SomeD [OF sc] have i: "i < length (m_children n)"
      and nth: "m_children n ! i = Some tmp" and key: "m_key tmp = c"
      by auto
    have st: "sized A tmp" using sized_slots_nth [OF ss i nth] .
    from Cons.IH [OF cs st, of nxt] obtain tmp' nxt' where
      r: "insert_loop A tmp cs v nxt = Return (value_at tmp cs = None) (tmp', nxt')"
      and k: "m_key tmp' = m_key tmp" and s: "sized A tmp'"
      and va: "value_at tmp' cs = (if value_at tmp cs = None then Some v else value_at tmp cs)"
      and na: "node_at tmp' cs \<noteq> None"
      and same: "value_at tmp cs \<noteq> None \<longrightarrow> tmp' = tmp \<and> nxt' = nxt"
      by blast
    have v0: "value_at n (c # cs) = value_at tmp cs"
      using sc by (simp add: value_at_def)
    have sc': "child_scan c ((m_children n)[i := Some tmp']) = Some (i, tmp')"
      using child_scan_update_Some [OF sc] k key by simp
    have v1: "value_at (set_slot i (Some tmp') n) (c # cs) = value_at tmp' cs"
      using sc' by (simp add: value_at_def)
    have n1: "node_at (set_slot i (Some tmp') n) (c # cs) = node_at tmp' cs"
      using sc' by simp
    have sz: "sized A (set_slot i (Some tmp') n)"
      using len sized_slots_update [OF ss s] by (simp add: sized_node)
    have res: "insert_loop A n (c # cs) v nxt =
        Return (value_at n (c # cs) = None) (set_slot i (Some tmp') n, nxt')"
      using ch sc r v0 by simp
    have "set_slot i (Some tmp') n = n \<and> nxt' = nxt" if "value_at n (c # cs) \<noteq> None"
      using that same v0 set_slot_same [OF i nth] by simp
    then show ?thesis
      using res v0 v1 va n1 na sz by auto
  next
    case None
    let ?i = "nat (alpha_ord A c)"
    let ?new = "set_key c (new_Node A nxt (Some (addr n))) :: 'a node"
    let ?n1 = "set_slot ?i (Some ?new) n"
    have i: "?i < length (m_children n)" using c len by simp
    have cc: "createChild A c n nxt = Inr (?n1, ?i, Suc nxt)"
      using c i len by (simp add: createChild_def Let_def)
    have nth: "m_children ?n1 ! ?i = Some ?new" using i by simp
    have snew: "sized A ?new"
      by (simp add: sized_node set_key_def new_Node_def sized_slots_replicate)
    have vnew: "value_at ?new cs = None"
      by (cases cs) (simp_all add: value_at_def set_key_def new_Node_def child_scan_replicate)
    from Cons.IH [OF cs snew, of "Suc nxt"] vnew obtain new' nxt' where
      r: "insert_loop A ?new cs v (Suc nxt) = Return True (new', nxt')"
      and k: "m_key new' = m_key ?new" and s: "sized A new'"
      and va: "value_at new' cs = Some v"
      and na: "node_at new' cs \<noteq> None"
      by auto
    have key: "m_key new' = c" using k by (simp add: set_key_def)
    have v0: "value_at n (c # cs) = None" using None by (simp add: value_at_def)
    have upd: "m_children (set_slot ?i (Some new') ?n1) = (m_children n)[?i := Some new']"
      by simp
    have sc': "child_scan c ((m_children n)[?i := Some new']) = Some (?i, new')"
      using child_scan_update_None [OF None i key] .
    have v1: "value_at (set_slot ?i (Some new') ?n1) (c # cs) = Some v"
      using sc' va by (simp add: value_at_def)
    have n1: "node_at (set_slot ?i (Some new') ?n1) (c # cs) \<noteq> None"
      using sc' na by simp
    have sz: "sized A (set_slot ?i (Some new') ?n1)"
      using len sized_slots_update [OF ss s] by (simp add: sized_node)
    have res: "insert_loop A n (c # cs) v nxt = Return True (set_slot ?i (Some new') ?n1, nxt')"
      using ch None cc nth r by simp
    show ?thesis
      using res v0 v1 n1 sz by auto
  qed
qed


lemma at_value_at:
  "isKeyCorrect A key \<Longrightarrow>
   at A t key = (case value_at (m_root t) key of None \<Rightarrow> Inl (Raised KeyNotFound) | Some v \<Rightarrow> Inr v)"
  by (simp add: at_node_at value_at_def split: option.splits)

lemma insert_trie_spec:
  assumes "valid_key A key" and "sized A (m_root t)"
  shows "\<exists>t' nxt'. insert_trie A key v (t, nxt) =
             Return (value_at (m_root t) key = None) (t', nxt') \<and>
           sized A (m_root t') \<and>
           value_at (m_root t') key =
             (if value_at (m_root t) key = None then Some v else value_at (m_root t) key) \<and>
           (value_at (m_root t) key \<noteq> None \<longrightarrow> t' = t \<and> nxt' = nxt)"
proof -
  from insert_loop_spec [OF assms, of v nxt] obtain n' nxt' where
    r: "insert_loop A (m_root t) key v nxt = Return (value_at (m_root t) key = None) (n', nxt')"
    and s: "sized A n'"
    and va: "value_at n' key =
      (if value_at (m_root t) key = None then Some v else value_at (m_root t) key)"
    and same: "value_at (m_root t) key \<noteq> None \<longrightarrow> n' = m_root t \<and> nxt' = nxt"
    by blast
  have "insert_trie A key v (t, nxt) = Return (value_at (m_root t) key = None) (Trie n', nxt')"
    using r valid_key_correct [OF assms(1)] by (simp add: insert_trie_def)
  moreover have "value_at (m_root t) key \<noteq> None \<longrightarrow> Trie n' = t \<and> nxt' = nxt"
    using same by (cases t) auto
  ultimately show ?thesis using s va by auto
qed

text \<open>
  Claim C1 as stated fails. On the trie that holds \<open>a\<close> with the value 5,
  \<open>insert("a", 7)\<close> returns false and \<open>search("a")\<close> yields 5, not 7.
\<close>

theorem insert_then_search_counterexample:
  "valid_key cart ''a'' \<and>
   insert_trie cart ''a'' 7 (trie_a 0 0 1 (5::nat), 2) = Return False (trie_a 0 0 1 5, 2) \<and>
   search cart (trie_a 0 0 1 (5::nat)) ''a'' = Inr (Some 5) \<and>
   search cart (trie_a 0 0 1 (5::nat)) ''a'' \<noteq> Inr (Some 7)"
  by (simp add: scenario node_ops valid_key_def insert_trie_def search_def getPath_def
        vector_back_def)

text \<open>
  Claim C1, amended. For a key of alphabet members that holds no value in the trie,
  \<open>insert(key, v)\<close> returns true and \<open>search(key)\<close> on the trie it leaves yields \<open>v\<close>.
\<close>

theorem insert_then_search:
  assumes "valid_key A key" and "sized A (m_root t)" and "search A t key = Inr None"
  shows "\<exists>t' nxt'. insert_trie A key v (t, nxt) = Return True (t', nxt') \<and>
           search A t' key = Inr (Some v)"
proof -
  have k: "isKeyCorrect A key" using valid_key_correct [OF assms(1)] .
  from assms(3) have none: "value_at (m_root t) key = None"
    by (simp add: search_value_at [OF k])
  from insert_trie_spec [OF assms(1,2), of v nxt] none obtain t' nxt' where
    "insert_trie A key v (t, nxt) = Return True (t', nxt')"
    "value_at (m_root t') key = Some v"
    by auto
  then show ?thesis by (auto simp: search_value_at [OF k])
qed

text \<open>The key \<open>car\<close> inserted into the trie that holds \<open>cat\<close>.\<close>

theorem insert_then_search_witness:
  "valid_key cart ''car'' \<and> sized cart (m_root (trie_cat (5::nat))) \<and>
   search cart (trie_cat (5::nat)) ''car'' = Inr None \<and>
   (\<exists>t' nxt'. insert_trie cart ''car'' 7 (trie_cat (5::nat), 4) = Return True (t', nxt') \<and>
      search cart t' ''car'' = Inr (Some 7))"
proof -
  have k: "valid_key cart ''car''" by (simp add: valid_key_def cart_def)
  have s: "sized cart (m_root (trie_cat (5::nat)))" by (simp add: scenario)
  have n: "search cart (trie_cat (5::nat)) ''car'' = Inr None"
    by (simp add: scenario node_ops search_def getPath_def vector_back_def)
  from insert_then_search [OF k s n, of 7 4] k s n show ?thesis by blast
qed

text \<open>
  Claim C2. For a key of alphabet members, \<open>insert(key, v1)\<close> returns true exactly when
  the key held no value, and then \<open>search(key)\<close> yields \<open>v1\<close>; when it returns false
  the trie is left as it was, so the value held is not overwritten. After either, a
  further \<open>insert(key, v2)\<close> returns false and leaves the trie as it is, so
  \<open>search(key)\<close> still yields \<open>v1\<close> after an insertion that installed it.
\<close>

theorem insert_no_overwrite:
  assumes "valid_key A key" and "sized A (m_root t)"
  shows "\<exists>b t' nxt'. insert_trie A key v1 (t, nxt) = Return b (t', nxt') \<and>
           b = (search A t key = Inr None) \<and>
           (b \<longrightarrow> search A t' key = Inr (Some v1)) \<and>
           (\<not> b \<longrightarrow> t' = t \<and> nxt' = nxt) \<and>
           insert_trie A key v2 (t', nxt') = Return False (t', nxt')"
proof -
  have k: "isKeyCorrect A key" using valid_key_correct [OF assms(1)] .
  from insert_trie_spec [OF assms, of v1 nxt] obtain t' nxt' where
    r: "insert_trie A key v1 (t, nxt) = Return (value_at (m_root t) key = None) (t', nxt')"
    and s: "sized A (m_root t')"
    and va: "value_at (m_root t') key =
      (if value_at (m_root t) key = None then Some v1 else value_at (m_root t) key)"
    and same: "value_at (m_root t) key \<noteq> None \<longrightarrow> t' = t \<and> nxt' = nxt"
    by blast
  from va have some: "value_at (m_root t') key \<noteq> None" by (auto split: if_splits)
  from insert_trie_spec [OF assms(1) s, of v2 nxt'] some
  have r2: "insert_trie A key v2 (t', nxt') = Return False (t', nxt')" by auto
  show ?thesis
    using r va same r2 by (auto simp: search_value_at [OF k])
qed

text \<open>The key \<open>car\<close> inserted into the trie that holds \<open>cat\<close>, and then once more.\<close>

theorem insert_no_overwrite_witness:
  "valid_key cart ''car'' \<and> sized cart (m_root (trie_cat (5::nat))) \<and>
   (\<exists>b t' nxt'. insert_trie cart ''car'' 7 (trie_cat (5::nat), 4) = Return b (t', nxt') \<and>
      b = (search cart (trie_cat (5::nat)) ''car'' = Inr None) \<and>
      (b \<longrightarrow> search cart t' ''car'' = Inr (Some 7)) \<and>
      (\<not> b \<longrightarrow> t' = trie_cat 5 \<and> nxt' = 4) \<and>
      insert_trie cart ''car'' 9 (t', nxt') = Return False (t', nxt'))"
proof -
  have k: "valid_key cart ''car''" by (simp add: valid_key_def cart_def)
  have s: "sized cart (m_root (trie_cat (5::nat)))" by (simp add: scenario)
  from insert_no_overwrite [OF k s, of 7 4 9] k s show ?thesis by blast
qed

section \<open>Default access\<close>

lemma index_trie_spec:
  assumes "valid_key A key" and "sized A (m_root t)"
  shows "(value_at (m_root t) key = None \<longrightarrow>
            (\<exists>t' nxt'. index_trie A dflt key (t, nxt) = Return dflt (t', nxt') \<and>
               insert_trie A key dflt (t, nxt) = Return True (t', nxt') \<and>
               value_at (m_root t') key = Some dflt)) \<and>
         (\<forall>v. value_at (m_root t) key = Some v \<longrightarrow>
            index_trie A dflt key (t, nxt) = Return v (t, nxt))"
proof -
  have k: "isKeyCorrect A key" using valid_key_correct [OF assms(1)] .
  have "\<exists>t' nxt'. index_trie A dflt key (t, nxt) = Return dflt (t', nxt') \<and>
          insert_trie A key dflt (t, nxt) = Return True (t', nxt') \<and>
          value_at (m_root t') key = Some dflt"
    if none: "value_at (m_root t) key = None"
  proof -
    from insert_trie_spec [OF assms, of dflt nxt] none obtain t' nxt' where
      r: "insert_trie A key dflt (t, nxt) = Return True (t', nxt')"
      and va: "value_at (m_root t') key = Some dflt"
      by auto
    have a: "at A t' key = Inr dflt" using va by (simp add: at_value_at [OF k])
    have "index_trie A dflt key (t, nxt) = Return dflt (t', nxt')"
      using k none r a by (simp add: index_trie_def search_value_at [OF k])
    with r va show ?thesis by blast
  qed
  moreover have "index_trie A dflt key (t, nxt) = Return v (t, nxt)"
    if "value_at (m_root t) key = Some v" for v
    using k that by (simp add: index_trie_def search_value_at [OF k])
  ultimately show ?thesis by blast
qed


text \<open>
  Claim C7. For a key of alphabet members that holds no value, \<open>operator[]\<close> inserts
  the default value under the key and returns it, and \<open>search(key)\<close> then yields that
  default value; for a key that holds a value, \<open>operator[]\<close> returns that value and
  leaves the trie as it was.
\<close>

theorem index_default_access:
  assumes "valid_key A key" and "sized A (m_root t)"
  shows "(search A t key = Inr None \<longrightarrow>
            (\<exists>t' nxt'. index_trie A dflt key (t, nxt) = Return dflt (t', nxt') \<and>
               insert_trie A key dflt (t, nxt) = Return True (t', nxt') \<and>
               at A t' key = Inr dflt \<and> search A t' key = Inr (Some dflt))) \<and>
         (\<forall>v. search A t key = Inr (Some v) \<longrightarrow>
            index_trie A dflt key (t, nxt) = Return v (t, nxt))"
proof -
  have k: "isKeyCorrect A key" using valid_key_correct [OF assms(1)] .
  from index_trie_spec [OF assms, of dflt nxt] show ?thesis
    by (simp add: search_value_at [OF k] at_value_at [OF k]) fastforce
qed

text \<open>
  The key \<open>car\<close>, absent from the trie that holds \<open>cat\<close>, and the key \<open>cat\<close>, present
  in it.
\<close>

theorem index_default_access_witness:
  "valid_key cart ''car'' \<and> valid_key cart ''cat'' \<and> sized cart (m_root (trie_cat (5::nat))) \<and>
   search cart (trie_cat (5::nat)) ''car'' = Inr None \<and>
   (\<exists>t' nxt'. index_trie cart 0 ''car'' (trie_cat (5::nat), 4) = Return 0 (t', nxt') \<and>
      search cart t' ''car'' = Inr (Some 0)) \<and>
   search cart (trie_cat (5::nat)) ''cat'' = Inr (Some 5) \<and>
   index_trie cart 0 ''cat'' (trie_cat (5::nat), 4) = Return 5 (trie_cat 5, 4)"
proof -
  have k: "valid_key cart ''car''" "valid_key cart ''cat''"
    by (simp_all add: valid_key_def cart_def)
  have s: "sized cart (m_root (trie_cat (5::nat)))" by (simp add: scenario)
  have n: "search cart (trie_cat (5::nat)) ''car'' = Inr None"
    by (simp add: scenario node_ops search_def getPath_def vector_back_def)
  have p: "search cart (trie_cat (5::nat)) ''cat'' = Inr (Some 5)"
    by (simp add: scenario node_ops search_def getPath_def vector_back_def)
  from index_default_access [OF k(1) s, of 0 4] n
  have a: "\<exists>t' nxt'. index_trie cart 0 ''car'' (trie_cat (5::nat), 4) = Return 0 (t', nxt') \<and>
      search cart t' ''car'' = Inr (Some 0)"
    by blast
  from index_default_access [OF k(2) s, of 0 4] p
  have b: "index_trie cart 0 ''cat'' (trie_cat (5::nat), 4) = Return 5 (trie_cat 5, 4)"
    by blast
  from k s n p a b show ?thesis by blast
qed

section \<open>Addresses and positions\<close>

lemma addrs_node: "addrs n = addr n # addrs_slots (m_children n)"
  by (cases n) simp

lemma addrs_slots_nth:
  "i < length cs \<Longrightarrow> cs ! i = Some ch \<Longrightarrow> set (addrs ch) \<subseteq> set (addrs_slots cs)"
proof (induction cs arbitrary: i)
  case Nil
  then show ?case by simp
next
  case (Cons x xs)
  then show ?case by (cases x; cases i) auto
qed

lemma distinct_slots_nth:
  "distinct (addrs_slots cs) \<Longrightarrow> i < length cs \<Longrightarrow> cs ! i = Some ch \<Longrightarrow> distinct (addrs ch)"
proof (induction cs arbitrary: i)
  case Nil
  then show ?case by simp
next
  case (Cons x xs)
  then show ?case by (cases x; cases i) auto
qed

lemma node_at_addr: "node_at n key = Some m \<Longrightarrow> addr m \<in> set (addrs n)"
proof (induction key arbitrary: n)
  case Nil
  then show ?case by (simp add: addrs_node)
next
  case (Cons c cs)
  then obtain i ch where sc: "child_scan c (m_children n) = Some (i, ch)"
    and m: "node_at ch cs = Some m"
    by (auto split: option.splits)
  from child_scan_SomeD [OF sc] have "set (addrs ch) \<subseteq> set (addrs_slots (m_children n))"
    using addrs_slots_nth by blast
  with Cons.IH [OF m] show ?case by (auto simp: addrs_node [of n])
qed

lemma deref_notin:
  "a \<notin> set (addrs (n::'v node)) \<Longrightarrow> deref a n = None"
  "a \<notin> set (addrs_slots (cs::'v node option list)) \<Longrightarrow> deref_slots a cs = None"
  by (induction a n and a cs rule: deref_deref_slots.induct) auto

lemma deref_self: "deref (addr n) n = Some n"
  by (cases n) simp

lemma deref_slots_at:
  "distinct (addrs_slots cs) \<Longrightarrow> i < length cs \<Longrightarrow> cs ! i = Some ch \<Longrightarrow>
   a \<in> set (addrs ch) \<Longrightarrow> deref_slots a cs = deref a ch"
proof (induction cs arbitrary: i)
  case Nil
  then show ?case by simp
next
  case (Cons x xs)
  show ?case
  proof (cases i)
    case 0
    with Cons.prems have x: "x = Some ch" and "a \<notin> set (addrs_slots xs)" by auto
    then show ?thesis by (simp add: deref_notin split: option.splits)
  next
    case (Suc j)
    with Cons.prems have j: "j < length xs" "xs ! j = Some ch" by auto
    then have a: "a \<in> set (addrs_slots xs)" using addrs_slots_nth Cons.prems(4) by blast
    show ?thesis
    proof (cases x)
      case None
      with Cons.IH [OF _ j Cons.prems(4)] Cons.prems(1) show ?thesis by simp
    next
      case (Some c')
      with Cons.prems(1) a have "a \<notin> set (addrs c')" by auto
      with Some Cons.IH [OF _ j Cons.prems(4)] Cons.prems(1) show ?thesis
        by (simp add: deref_notin)
    qed
  qed
qed

lemma deref_node_at:
  "distinct (addrs n) \<Longrightarrow> node_at n key = Some m \<Longrightarrow> deref (addr m) n = Some m"
proof (induction key arbitrary: n)
  case Nil
  then show ?case by (simp add: deref_self)
next
  case (Cons c cs)
  then obtain i ch where sc: "child_scan c (m_children n) = Some (i, ch)"
    and m: "node_at ch cs = Some m"
    by (auto split: option.splits)
  from child_scan_SomeD [OF sc] have i: "i < length (m_children n)"
    and nth: "m_children n ! i = Some ch" by auto
  from Cons.prems(1) have d: "distinct (addrs_slots (m_children n))"
    and r: "addr n \<notin> set (addrs_slots (m_children n))"
    by (auto simp: addrs_node [of n])
  have in_ch: "addr m \<in> set (addrs ch)" using node_at_addr [OF m] .
  with addrs_slots_nth [OF i nth] r have ne: "addr n \<noteq> addr m" by auto
  have "deref (addr m) n = deref_slots (addr m) (m_children n)"
    using ne by (cases n) simp
  also have "\<dots> = deref (addr m) ch" using deref_slots_at [OF d i nth in_ch] .
  also have "\<dots> = Some m" using Cons.IH [OF distinct_slots_nth [OF d i nth] m] .
  finally show ?case .
qed

lemma modify_notin:
  "a \<notin> set (addrs (n::'v node)) \<Longrightarrow> modify a f n = n"
  "a \<notin> set (addrs_slots (cs::'v node option list)) \<Longrightarrow> modify_slots a f cs = cs"
  by (induction a f n and a f cs rule: modify_modify_slots.induct) auto

lemma modify_self: "modify (addr n) f n = f n"
  by (cases n) simp

lemma modify_slots_at:
  "distinct (addrs_slots cs) \<Longrightarrow> i < length cs \<Longrightarrow> cs ! i = Some ch \<Longrightarrow>
   a \<in> set (addrs ch) \<Longrightarrow> modify_slots a f cs = cs[i := Some (modify a f ch)]"
proof (induction cs arbitrary: i)
  case Nil
  then show ?case by simp
next
  case (Cons x xs)
  show ?case
  proof (cases i)
    case 0
    with Cons.prems have x: "x = Some ch" and "a \<notin> set (addrs_slots xs)" by auto
    then show ?thesis using 0 by (simp add: modify_notin)
  next
    case (Suc j)
    with Cons.prems have j: "j < length xs" "xs ! j = Some ch" by auto
    then have a: "a \<in> set (addrs_slots xs)" using addrs_slots_nth Cons.prems(4) by blast
    show ?thesis
    proof (cases x)
      case None
      with Cons.IH [OF _ j Cons.prems(4)] Cons.prems(1) Suc show ?thesis by simp
    next
      case (Some c')
      with Cons.prems(1) a have "a \<notin> set (addrs c')" by auto
      with Some Cons.IH [OF _ j Cons.prems(4)] Cons.prems(1) Suc show ?thesis
        by (simp add: modify_notin)
    qed
  qed
qed

lemma modify_node_at:
  "distinct (addrs n) \<Longrightarrow> node_at n key = Some m \<Longrightarrow> modify (addr m) f n = update_at n key f"
proof (induction key arbitrary: n)
  case Nil
  then show ?case by (simp add: modify_self)
next
  case (Cons c cs)
  then obtain i ch where sc: "child_scan c (m_children n) = Some (i, ch)"
    and m: "node_at ch cs = Some m"
    by (auto split: option.splits)
  from child_scan_SomeD [OF sc] have i: "i < length (m_children n)"
    and nth: "m_children n ! i = Some ch" by auto
  from Cons.prems(1) have d: "distinct (addrs_slots (m_children n))"
    and r: "addr n \<notin> set (addrs_slots (m_children n))"
    by (auto simp: addrs_node [of n])
  have in_ch: "addr m \<in> set (addrs ch)" using node_at_addr [OF m] .
  with addrs_slots_nth [OF i nth] r have ne: "addr n \<noteq> addr m" by auto
  have "modify (addr m) f n = set_children (modify_slots (addr m) f (m_children n)) n"
    using ne by (cases n) (simp add: set_children_def)
  also have "\<dots> = set_slot i (Some (modify (addr m) f ch)) n"
    using modify_slots_at [OF d i nth in_ch] by (simp add: set_slot_def)
  also have "\<dots> = set_slot i (Some (update_at ch cs f)) n"
    using Cons.IH [OF distinct_slots_nth [OF d i nth] m] by simp
  finally show ?case using sc by simp
qed

lemma update_at_id:
  "node_at n key = Some m \<Longrightarrow> f m = m \<Longrightarrow> update_at n key f = n"
proof (induction key arbitrary: n)
  case Nil
  then show ?case by simp
next
  case (Cons c cs)
  then obtain i ch where sc: "child_scan c (m_children n) = Some (i, ch)"
    and m: "node_at ch cs = Some m"
    by (auto split: option.splits)
  from child_scan_SomeD [OF sc] have i: "i < length (m_children n)"
    and nth: "m_children n ! i = Some ch" by auto
  show ?case using sc Cons.IH [OF m Cons.prems(2)] set_slot_same [OF i nth] by simp
qed

lemma no_dead_slots_nth:
  "no_dead_slots cs \<Longrightarrow> i < length cs \<Longrightarrow> cs ! i = Some ch \<Longrightarrow>
   (hasValue ch \<or> hasChildren ch) \<and> no_dead ch"
proof (induction cs arbitrary: i)
  case Nil
  then show ?case by simp
next
  case (Cons x xs)
  then show ?case by (cases x; cases i) auto
qed

lemma no_dead_node: "no_dead n = no_dead_slots (m_children n)"
  by (cases n) simp

lemma no_dead_node_at:
  "no_dead n \<Longrightarrow> node_at n (c # cs) = Some m \<Longrightarrow> hasValue m \<or> hasChildren m"
proof (induction cs arbitrary: n c)
  case Nil
  then obtain i where sc: "child_scan c (m_children n) = Some (i, m)"
    by (auto split: option.splits)
  from child_scan_SomeD [OF sc] no_dead_slots_nth Nil.prems(1) show ?case
    by (auto simp: no_dead_node [of n])
next
  case (Cons c' cs)
  then obtain i ch where sc: "child_scan c (m_children n) = Some (i, ch)"
    and m: "node_at ch (c' # cs) = Some m"
    by (auto split: option.splits)
  from child_scan_SomeD [OF sc] no_dead_slots_nth Cons.prems(1) have "no_dead ch"
    by (auto simp: no_dead_node [of n])
  from Cons.IH [OF this m] show ?case .
qed

lemma removeValue_id: "m_value m = None \<Longrightarrow> removeValue m = m"
  by (cases m) (simp add: removeValue_def)

section \<open>Removing a key that holds no value\<close>

text \<open>
  Claim C4. In a trie as the operations leave it (nodes at distinct addresses, a root
  without parent, no node that is a dead end), \<open>remove\<close> of a key of alphabet members
  that holds no value, whether its path is missing or ends in a node without value,
  raises nothing and returns with the trie as it was.
\<close>

theorem remove_absent_key_unchanged:
  assumes "isKeyCorrect A key" and "search A t key = Inr None"
    and "distinct (addrs (m_root t))" and "no_dead (m_root t)"
    and "m_parent (m_root t) = None"
  shows "remove_trie A key t = Return () t"
proof -
  obtain p where p: "getPath A (m_root t) key = Inr p"
    using getPath_returns [OF assms(1)] by blast
  from getPath_props [OF p] have ne: "p \<noteq> []" and l: "last p = node_at (m_root t) key"
    by auto
  from ne have rp: "rev p = last p # rev (butlast p)"
    by (cases p rule: rev_cases) auto
  show ?thesis
  proof (cases "node_at (m_root t) key")
    case None
    with p l assms(1) show ?thesis by (simp add: remove_trie_def rp)
  next
    case (Some m)
    from assms(1,2) Some have v: "m_value m = None"
      by (simp add: search_value_at value_at_def)
    have same: "modify (addr m) removeValue (m_root t) = m_root t"
      using modify_node_at [OF assms(3) Some, of removeValue]
        update_at_id [of "m_root t" key m removeValue, OF Some removeValue_id [OF v]]
      by simp
    have d: "deref (addr m) (m_root t) = Some m"
      using deref_node_at [OF assms(3) Some] .
    have stop: "hasValue m \<or> hasChildren m \<or> \<not> hasParent m"
    proof (cases key)
      case Nil
      with Some assms(5) show ?thesis by (simp add: hasParent_def)
    next
      case (Cons c cs)
      with Some no_dead_node_at [OF assms(4)] show ?thesis by blast
    qed
    have "remove_loop (map (map_option addr) (rev p)) (m_root t) = Return True (m_root t)"
      using l Some d stop by (simp add: rp)
    then show ?thesis
      using p l Some assms(1) same by (simp add: remove_trie_def rp)
  qed
qed

text \<open>
  In the trie that holds \<open>cat\<close> and \<open>car\<close>: the key \<open>ca\<close> ends in a node without
  value.
\<close>

theorem remove_absent_key_unchanged_witness:
  "isKeyCorrect cart ''ca'' \<and>
   search cart (trie_cat_car (5::nat) 7) ''ca'' = Inr None \<and>
   distinct (addrs (m_root (trie_cat_car (5::nat) 7))) \<and>
   no_dead (m_root (trie_cat_car (5::nat) 7)) \<and>
   m_parent (m_root (trie_cat_car (5::nat) 7)) = None \<and>
   remove_trie cart ''ca'' (trie_cat_car (5::nat) 7) = Return () (trie_cat_car 5 7)"
proof -
  have k: "isKeyCorrect cart ''ca''" by (simp add: cart_def isInAlphabet_def)
  have s: "search cart (trie_cat_car (5::nat) 7) ''ca'' = Inr None"
    by (simp add: scenario node_ops search_def getPath_def vector_back_def)
  have d: "distinct (addrs (m_root (trie_cat_car (5::nat) 7)))" by (simp add: scenario)
  have n: "no_dead (m_root (trie_cat_car (5::nat) 7))" by (simp add: scenario node_ops)
  have r: "m_parent (m_root (trie_cat_car (5::nat) 7)) = None" by (simp add: scenario)
  from remove_absent_key_unchanged [OF k s d n r] k s d n r show ?thesis by blast
qed

section \<open>Updates at a position\<close>

declare cascade_spec.simps [simp del]

lemma node_at_append:
  "node_at n (ks @ ks') = (case node_at n ks of None \<Rightarrow> None | Some x \<Rightarrow> node_at x ks')"
  by (induction ks arbitrary: n) (auto split: option.splits)

lemma getPath_snoc:
  "getPath A n ks = Inr q \<Longrightarrow> node_at n ks = Some pm \<Longrightarrow> alpha_ord A c \<noteq> - 1 \<Longrightarrow>
   getPath A n (ks @ [c]) = Inr (q @ [map_option snd (child_scan c (m_children pm))])"
proof (induction ks arbitrary: n q)
  case Nil
  then show ?case
    by (auto simp: getPath_Nil getPath_Cons child_def split: option.splits)
next
  case (Cons k ks)
  from Cons.prems(2) obtain i ch where sc: "child_scan k (m_children n) = Some (i, ch)"
    and pm: "node_at ch ks = Some pm"
    by (auto split: option.splits)
  from Cons.prems(1) sc obtain q1 where ch: "child A n k = Inr (Some (i, ch))"
    and q1: "getPath A ch ks = Inr q1" and q: "q = Some n # q1"
    by (auto simp: getPath_Cons child_def split: if_splits sum.splits)
  from Cons.IH [OF q1 pm Cons.prems(3)] ch q show ?case
    by (simp add: getPath_Cons)
qed

lemma update_at_sel:
  assumes "\<And>m. addr (f m) = addr m" and "\<And>m. m_key (f m) = m_key m"
    and "\<And>m. m_parent (f m) = m_parent m"
  shows "addr (update_at n ks f) = addr n" and "m_key (update_at n ks f) = m_key n"
    and "m_parent (update_at n ks f) = m_parent n"
  using assms by (cases ks; simp split: option.splits)+

lemma node_at_update_at:
  assumes "\<And>m. addr (f m) = addr m" and "\<And>m. m_key (f m) = m_key m"
    and "\<And>m. m_parent (f m) = m_parent m"
  shows "node_at (update_at n ks f) ks = map_option f (node_at n ks)"
proof (induction ks arbitrary: n)
  case Nil
  show ?case by simp
next
  case (Cons c cs)
  show ?case
  proof (cases "child_scan c (m_children n)")
    case None
    then show ?thesis by simp
  next
    case (Some ich)
    obtain i ch where "ich = (i, ch)" by (cases ich)
    with Some have sc: "child_scan c (m_children n) = Some (i, ch)" by simp
    from child_scan_SomeD [OF sc] have k: "m_key ch = c" by simp
    have "m_key (update_at ch cs f) = c" using update_at_sel(2) [of f, OF assms] k by simp
    from child_scan_update_Some [OF sc this] sc Cons.IH [of ch] show ?thesis by simp
  qed
qed

lemma getPath_update_at:
  assumes "\<And>m. addr (f m) = addr m" and "\<And>m. m_key (f m) = m_key m"
    and "\<And>m. m_parent (f m) = m_parent m"
  shows "getPath A n ks = Inr q \<Longrightarrow> node_at n ks \<noteq> None \<Longrightarrow>
     \<exists>q'. getPath A (update_at n ks f) ks = Inr q' \<and>
          map (map_option addr) q' = map (map_option addr) q"
proof (induction ks arbitrary: n q)
  case Nil
  then show ?case by (auto simp: getPath_Nil assms)
next
  case (Cons c cs)
  from Cons.prems(2) obtain i ch where sc: "child_scan c (m_children n) = Some (i, ch)"
    and pm: "node_at ch cs \<noteq> None"
    by (auto split: option.splits)
  from Cons.prems(1) sc obtain q1 where ch: "child A n c = Inr (Some (i, ch))"
    and q1: "getPath A ch cs = Inr q1" and q: "q = Some n # q1"
    by (auto simp: getPath_Cons child_def split: if_splits sum.splits)
  from ch have ord: "alpha_ord A c \<noteq> - 1" by (auto simp: child_def split: if_splits)
  from Cons.IH [OF q1 pm] obtain q1' where
    q1': "getPath A (update_at ch cs f) cs = Inr q1'"
    and same: "map (map_option addr) q1' = map (map_option addr) q1"
    by blast
  from child_scan_SomeD [OF sc] have k: "m_key ch = c" by simp
  have "m_key (update_at ch cs f) = c" using update_at_sel(2) [of f, OF assms] k by simp
  from child_scan_update_Some [OF sc this]
  have "child A (set_slot i (Some (update_at ch cs f)) n) c = Inr (Some (i, update_at ch cs f))"
    using ord by (simp add: child_def)
  then have "getPath A (update_at n (c # cs) f) (c # cs) =
      Inr (Some (set_slot i (Some (update_at ch cs f)) n) # q1')"
    using sc q1' by (simp add: getPath_Cons)
  with same q show ?case by simp
qed

lemma update_at_cong:
  "node_at n ks = Some m \<Longrightarrow> f m = g m \<Longrightarrow> update_at n ks f = update_at n ks g"
proof (induction ks arbitrary: n)
  case Nil
  then show ?case by simp
next
  case (Cons c cs)
  then obtain i ch where sc: "child_scan c (m_children n) = Some (i, ch)"
    and m: "node_at ch cs = Some m"
    by (auto split: option.splits)
  from Cons.IH [OF m Cons.prems(2)] sc show ?case by simp
qed

subsection \<open>Distinct addresses are kept\<close>

lemma addrs_slots_update_subset:
  "i < length cs \<Longrightarrow> cs ! i = Some ch \<Longrightarrow> set (addrs ch') \<subseteq> set (addrs ch) \<Longrightarrow>
   set (addrs_slots (cs[i := Some ch'])) \<subseteq> set (addrs_slots cs)"
proof (induction cs arbitrary: i)
  case Nil
  then show ?case by simp
next
  case (Cons x xs)
  then show ?case by (cases x; cases i) auto
qed

lemma addrs_slots_drop_subset:
  "set (addrs_slots (cs[i := None])) \<subseteq> set (addrs_slots cs)"
proof (induction cs arbitrary: i)
  case Nil
  then show ?case by simp
next
  case (Cons x xs)
  then show ?case by (cases x; cases i) auto
qed

lemma distinct_slots_update:
  "distinct (addrs_slots cs) \<Longrightarrow> i < length cs \<Longrightarrow> cs ! i = Some ch \<Longrightarrow>
   set (addrs ch') \<subseteq> set (addrs ch) \<Longrightarrow> distinct (addrs ch') \<Longrightarrow>
   distinct (addrs_slots (cs[i := Some ch']))"
proof (induction cs arbitrary: i)
  case Nil
  then show ?case by simp
next
  case (Cons x xs)
  show ?case
  proof (cases i)
    case 0
    with Cons.prems show ?thesis by auto
  next
    case (Suc j)
    with Cons.prems have j: "j < length xs" "xs ! j = Some ch" by auto
    from addrs_slots_update_subset [OF j Cons.prems(4)]
    have sub: "set (addrs_slots (xs[j := Some ch'])) \<subseteq> set (addrs_slots xs)" .
    show ?thesis
    proof (cases x)
      case None
      with Cons.IH [OF _ j Cons.prems(4,5)] Cons.prems(1) Suc show ?thesis by simp
    next
      case (Some c')
      with Cons.IH [OF _ j Cons.prems(4,5)] Cons.prems(1) Suc sub show ?thesis by auto
    qed
  qed
qed

lemma distinct_slots_drop:
  "distinct (addrs_slots cs) \<Longrightarrow> distinct (addrs_slots (cs[i := None]))"
proof (induction cs arbitrary: i)
  case Nil
  then show ?case by simp
next
  case (Cons x xs)
  show ?case
  proof (cases i)
    case 0
    with Cons.prems show ?thesis by (cases x) auto
  next
    case (Suc j)
    with Cons.prems Cons.IH [of j] addrs_slots_drop_subset [of xs j] show ?thesis
      by (cases x) auto
  qed
qed

lemma update_at_addrs:
  assumes "\<And>m. set (addrs (f m)) \<subseteq> set (addrs m)"
  shows "set (addrs (update_at n ks f)) \<subseteq> set (addrs n)"
proof (induction ks arbitrary: n)
  case Nil
  show ?case using assms by simp
next
  case (Cons c cs)
  show ?case
  proof (cases "child_scan c (m_children n)")
    case None
    then show ?thesis by simp
  next
    case (Some ich)
    obtain i ch where "ich = (i, ch)" by (cases ich)
    with Some have sc: "child_scan c (m_children n) = Some (i, ch)" by simp
    from child_scan_SomeD [OF sc] have i: "i < length (m_children n)"
      and nth: "m_children n ! i = Some ch" by auto
    from addrs_slots_update_subset [OF i nth Cons.IH [of ch]] sc show ?thesis
      by (auto simp: addrs_node [of n] addrs_node [of "set_slot i (Some (update_at ch cs f)) n"])
  qed
qed

lemma update_at_distinct:
  assumes "\<And>m. set (addrs (f m)) \<subseteq> set (addrs m)"
    and "\<And>m. distinct (addrs m) \<Longrightarrow> distinct (addrs (f m))"
  shows "distinct (addrs n) \<Longrightarrow> distinct (addrs (update_at n ks f))"
proof (induction ks arbitrary: n)
  case Nil
  then show ?case using assms(2) by simp
next
  case (Cons c cs)
  show ?case
  proof (cases "child_scan c (m_children n)")
    case None
    with Cons.prems show ?thesis by simp
  next
    case (Some ich)
    obtain i ch where "ich = (i, ch)" by (cases ich)
    with Some have sc: "child_scan c (m_children n) = Some (i, ch)" by simp
    from child_scan_SomeD [OF sc] have i: "i < length (m_children n)"
      and nth: "m_children n ! i = Some ch" by auto
    from Cons.prems have d: "distinct (addrs_slots (m_children n))"
      and r: "addr n \<notin> set (addrs_slots (m_children n))"
      by (auto simp: addrs_node [of n])
    have sub: "set (addrs (update_at ch cs f)) \<subseteq> set (addrs ch)"
      using update_at_addrs [of f, OF assms(1)] .
    have dch: "distinct (addrs (update_at ch cs f))"
      using Cons.IH [OF distinct_slots_nth [OF d i nth]] .
    from distinct_slots_update [OF d i nth sub dch] addrs_slots_update_subset [OF i nth sub] r sc
    show ?thesis
      by (auto simp: addrs_node [of "set_slot i (Some (update_at ch cs f)) n"])
  qed
qed

lemma distinct_node_at:
  "distinct (addrs n) \<Longrightarrow> node_at n ks = Some m \<Longrightarrow> distinct (addrs m)"
proof (induction ks arbitrary: n)
  case Nil
  then show ?case by simp
next
  case (Cons c cs)
  then obtain i ch where sc: "child_scan c (m_children n) = Some (i, ch)"
    and m: "node_at ch cs = Some m"
    by (auto split: option.splits)
  from child_scan_SomeD [OF sc] Cons.prems(1) distinct_slots_nth
  have "distinct (addrs ch)" by (auto simp: addrs_node [of n])
  from Cons.IH [OF this m] show ?case .
qed

subsection \<open>Parent back-references are kept\<close>

lemma owned_node: "owned n = owned_slots (addr n) (m_children n)"
  by (cases n) simp

lemma owned_slots_nth:
  "owned_slots b cs \<Longrightarrow> i < length cs \<Longrightarrow> cs ! i = Some ch \<Longrightarrow>
   m_parent ch = Some b \<and> owned ch"
proof (induction cs arbitrary: i)
  case Nil
  then show ?case by simp
next
  case (Cons x xs)
  then show ?case by (cases x; cases i) auto
qed

lemma owned_slots_update:
  "owned_slots b cs \<Longrightarrow> m_parent ch' = Some b \<Longrightarrow> owned ch' \<Longrightarrow>
   owned_slots b (cs[i := Some ch'])"
proof (induction cs arbitrary: i)
  case Nil
  then show ?case by simp
next
  case (Cons x xs)
  then show ?case by (cases x; cases i) auto
qed

lemma owned_slots_drop: "owned_slots b cs \<Longrightarrow> owned_slots b (cs[i := None])"
proof (induction cs arbitrary: i)
  case Nil
  then show ?case by simp
next
  case (Cons x xs)
  then show ?case by (cases x; cases i) auto
qed

lemma update_at_owned:
  assumes "\<And>m. addr (f m) = addr m" and "\<And>m. m_key (f m) = m_key m"
    and "\<And>m. m_parent (f m) = m_parent m"
    and "\<And>m. owned m \<Longrightarrow> owned (f m)"
  shows "owned n \<Longrightarrow> owned (update_at n ks f)"
proof (induction ks arbitrary: n)
  case Nil
  then show ?case using assms(4) by simp
next
  case (Cons c cs)
  show ?case
  proof (cases "child_scan c (m_children n)")
    case None
    with Cons.prems show ?thesis by simp
  next
    case (Some ich)
    obtain i ch where "ich = (i, ch)" by (cases ich)
    with Some have sc: "child_scan c (m_children n) = Some (i, ch)" by simp
    from child_scan_SomeD [OF sc] have i: "i < length (m_children n)"
      and nth: "m_children n ! i = Some ch" by auto
    from Cons.prems have os: "owned_slots (addr n) (m_children n)" by (simp add: owned_node)
    from owned_slots_nth [OF os i nth] have p: "m_parent ch = Some (addr n)" and o: "owned ch"
      by auto
    have p': "m_parent (update_at ch cs f) = Some (addr n)"
      using update_at_sel(3) [of f, OF assms(1-3)] p by simp
    from owned_slots_update [OF os p' Cons.IH [OF o]] sc show ?thesis
      by (simp add: owned_node [of "set_slot i (Some (update_at ch cs f)) n"])
  qed
qed

lemma owned_node_at: "owned n \<Longrightarrow> node_at n ks = Some m \<Longrightarrow> owned m"
proof (induction ks arbitrary: n)
  case Nil
  then show ?case by simp
next
  case (Cons c cs)
  then obtain i ch where sc: "child_scan c (m_children n) = Some (i, ch)"
    and m: "node_at ch cs = Some m"
    by (auto split: option.splits)
  from child_scan_SomeD [OF sc] Cons.prems(1) owned_slots_nth
  have "owned ch" by (auto simp: owned_node [of n])
  from Cons.IH [OF this m] show ?case .
qed

section \<open>The removal cascade\<close>

lemma drop_child_sel [simp]:
  "addr (drop_child c m) = addr m" "m_key (drop_child c m) = m_key m"
  "m_parent (drop_child c m) = m_parent m" "m_value (drop_child c m) = m_value m"
  by (simp_all add: drop_child_def split: option.splits)

lemma removeValue_sel [simp]:
  "addr (removeValue m) = addr m" "m_key (removeValue m) = m_key m"
  "m_parent (removeValue m) = m_parent m" "m_children (removeValue m) = m_children m"
  "m_value (removeValue m) = None"
  by (simp_all add: removeValue_def)

lemma drop_child_addrs: "set (addrs (drop_child c m)) \<subseteq> set (addrs m)"
  using addrs_slots_drop_subset [of "m_children m"]
  by (auto simp: drop_child_def addrs_node [of m] addrs_node [of "set_slot i None m" for i]
           split: option.splits)

lemma drop_child_distinct: "distinct (addrs m) \<Longrightarrow> distinct (addrs (drop_child c m))"
  using addrs_slots_drop_subset [of "m_children m"] distinct_slots_drop [of "m_children m"]
  by (auto simp: drop_child_def addrs_node [of m] addrs_node [of "set_slot i None m" for i]
           split: option.splits)

lemma drop_child_owned: "owned m \<Longrightarrow> owned (drop_child c m)"
  using owned_slots_drop [of "addr m" "m_children m"]
  by (auto simp: drop_child_def owned_node [of m] owned_node [of "set_slot i None m" for i]
           split: option.splits)

lemma removeValue_addrs: "addrs (removeValue m) = addrs m"
  by (simp add: addrs_node [of m] addrs_node [of "removeValue m"])

lemma removeValue_owned: "owned (removeValue m) = owned m"
  by (simp add: owned_node [of m] owned_node [of "removeValue m"])

lemma removeChild_scan_at:
  "distinct (addrs_slots cs) \<Longrightarrow> i < length cs \<Longrightarrow> cs ! i = Some m \<Longrightarrow>
   removeChild_scan (Some (addr m)) cs = (True, cs[i := None])"
proof (induction cs arbitrary: i)
  case Nil
  then show ?case by simp
next
  case (Cons x xs)
  show ?case
  proof (cases i)
    case 0
    with Cons.prems show ?thesis by simp
  next
    case (Suc j)
    with Cons.prems have j: "j < length xs" "xs ! j = Some m" by auto
    from addrs_slots_nth [OF j] have a: "addr m \<in> set (addrs_slots xs)"
      by (auto simp: addrs_node [of m])
    have ne: "map_option addr x \<noteq> Some (addr m)"
    proof (cases x)
      case None
      then show ?thesis by simp
    next
      case (Some c')
      with Cons.prems(1) a have "addr m \<notin> set (addrs c')" by auto
      then show ?thesis using Some by (auto simp: addrs_node [of c'])
    qed
    from Cons.prems(1) have "distinct (addrs_slots xs)" by (cases x) auto
    from Cons.IH [OF this j] ne Suc show ?thesis by auto
  qed
qed

lemma removeChild_drop_child:
  assumes "distinct (addrs pm)" and "child_scan c (m_children pm) = Some (i, m)"
  shows "snd (removeChild (Some (addr m)) pm) = drop_child c pm"
proof -
  from child_scan_SomeD [OF assms(2)] have i: "i < length (m_children pm)"
    and nth: "m_children pm ! i = Some m" by auto
  from assms(1) have "distinct (addrs_slots (m_children pm))" by (simp add: addrs_node [of pm])
  from removeChild_scan_at [OF this i nth] assms(2) show ?thesis
    by (simp add: removeChild_def drop_child_def set_slot_def)
qed

lemma hasParent_owned:
  assumes "owned r" and "node_at r ks = Some pm" and "child_scan c (m_children pm) = Some (i, m)"
  shows "m_parent m = Some (addr pm)"
proof -
  from owned_node_at [OF assms(1,2)] have "owned_slots (addr pm) (m_children pm)"
    by (simp add: owned_node)
  from owned_slots_nth [OF this] child_scan_SomeD [OF assms(3)] show ?thesis by blast
qed

text \<open>
  The loop of \<open>remove\<close>, run on the addresses of a key's path in a tree with distinct
  addresses and consistent parent back-references, computes the cascade.
\<close>

lemma remove_loop_cascade:
  assumes "isKeyCorrect A key"
  shows "distinct (addrs r) \<Longrightarrow> owned r \<Longrightarrow> m_parent r = None \<Longrightarrow>
     getPath A r key = Inr q \<Longrightarrow> node_at r key \<noteq> None \<Longrightarrow>
     \<exists>b. remove_loop (map (map_option addr) (rev q)) r = Return b (cascade_spec r key)"
  using assms
proof (induction key arbitrary: r q rule: rev_induct)
  case Nil
  then have "q = [Some r]" by (simp add: getPath_Nil)
  with Nil.prems(3) show ?case
    by (auto simp: deref_self hasParent_def cascade_spec.simps [of r "[]"])
next
  case (snoc c ks)
  from snoc.prems(6) have kc: "isKeyCorrect A ks" and ord: "alpha_ord A c \<noteq> - 1"
    by (auto simp: isKeyCorrect_iff)
  from snoc.prems(5) obtain pm m where pm: "node_at r ks = Some pm"
    and m: "node_at r (ks @ [c]) = Some m"
    by (auto simp: node_at_append split: option.splits)
  from m pm obtain i where sc: "child_scan c (m_children pm) = Some (i, m)"
    by (auto simp: node_at_append split: option.splits)
  obtain q0 where q0: "getPath A r ks = Inr q0" using getPath_returns [OF kc] by blast
  from getPath_snoc [OF q0 pm ord] snoc.prems(4) sc have q: "q = q0 @ [Some m]" by simp
  have dm: "deref (addr m) r = Some m" using deref_node_at [OF snoc.prems(1) m] .
  have par: "m_parent m = Some (addr pm)" using hasParent_owned [OF snoc.prems(2) pm sc] .
  show ?case
  proof (cases "hasValue m \<or> hasChildren m")
    case True
    then show ?thesis
      using q dm m by (auto simp: cascade_spec.simps [of r "ks @ [c]"])
  next
    case False
    let ?r' = "update_at r ks (drop_child c)"
    have dpm: "deref (addr pm) r = Some pm" using deref_node_at [OF snoc.prems(1) pm] .
    have "modify (addr pm) (\<lambda>p. snd (removeChild (Some (addr m)) p)) r =
        update_at r ks (\<lambda>p. snd (removeChild (Some (addr m)) p))"
      using modify_node_at [OF snoc.prems(1) pm] .
    also have "\<dots> = ?r'"
      by (rule update_at_cong [OF pm])
         (rule removeChild_drop_child [OF distinct_node_at [OF snoc.prems(1) pm] sc])
    finally have step: "modify (addr pm) (\<lambda>p. snd (removeChild (Some (addr m)) p)) r = ?r'" .
    have d': "distinct (addrs ?r')"
      using update_at_distinct [of "drop_child c", OF drop_child_addrs drop_child_distinct]
        snoc.prems(1) by blast
    have o': "owned ?r'"
      using update_at_owned [of "drop_child c", OF _ _ _ drop_child_owned] snoc.prems(2)
      by simp
    have p': "m_parent ?r' = None"
      using update_at_sel(3) [of "drop_child c" r ks] snoc.prems(3) by simp
    have n': "node_at ?r' ks \<noteq> None"
      using node_at_update_at [of "drop_child c" r ks] pm by simp
    from getPath_update_at [of "drop_child c", OF _ _ _ q0] pm obtain q0' where
      q0': "getPath A ?r' ks = Inr q0'"
      and same: "map (map_option addr) q0' = map (map_option addr) q0"
      by auto
    from snoc.IH [OF d' o' p' q0' n' kc] obtain b where
      "remove_loop (map (map_option addr) (rev q0')) ?r' = Return b (cascade_spec ?r' ks)"
      by blast
    then have rest: "remove_loop (map (map_option addr) (rev q0)) ?r' =
        Return b (cascade_spec ?r' ks)"
      using same by (simp add: rev_map [symmetric])
    have "remove_loop (map (map_option addr) (rev q)) r = Return b (cascade_spec ?r' ks)"
      using q dm False par dpm step rest by (simp add: hasParent_def)
    moreover have "cascade_spec r (ks @ [c]) = cascade_spec ?r' ks"
      using m False by (simp add: cascade_spec.simps [of r "ks @ [c]"])
    ultimately show ?thesis by auto
  qed
qed

lemma remove_trie_spec:
  assumes "isKeyCorrect A key" and "distinct (addrs (m_root t))" and "owned (m_root t)"
    and "m_parent (m_root t) = None"
  shows "remove_trie A key t = Return () (Trie (remove_spec (m_root t) key))"
proof -
  obtain p where p: "getPath A (m_root t) key = Inr p"
    using getPath_returns [OF assms(1)] by blast
  from getPath_props [OF p] have ne: "p \<noteq> []" and l: "last p = node_at (m_root t) key"
    by auto
  from ne have rp: "rev p = last p # rev (butlast p)"
    by (cases p rule: rev_cases) auto
  show ?thesis
  proof (cases "node_at (m_root t) key")
    case None
    with p l assms(1) show ?thesis by (simp add: remove_trie_def rp remove_spec_def)
  next
    case (Some m)
    let ?r1 = "update_at (m_root t) key removeValue"
    have r1: "modify (addr m) removeValue (m_root t) = ?r1"
      using modify_node_at [OF assms(2) Some] .
    have d1: "distinct (addrs ?r1)"
      using update_at_distinct [of removeValue] assms(2) by (simp add: removeValue_addrs)
    have o1: "owned ?r1"
      using update_at_owned [of removeValue] assms(3) by (simp add: removeValue_owned)
    have p1: "m_parent ?r1 = None"
      using update_at_sel(3) [of removeValue "m_root t" key] assms(4) by simp
    have n1: "node_at ?r1 key \<noteq> None"
      using node_at_update_at [of removeValue "m_root t" key] Some by simp
    from getPath_update_at [of removeValue, OF _ _ _ p] Some obtain q where
      q: "getPath A ?r1 key = Inr q"
      and same: "map (map_option addr) q = map (map_option addr) p"
      by auto
    from remove_loop_cascade [OF assms(1) d1 o1 p1 q n1] obtain b where
      "remove_loop (map (map_option addr) (rev q)) ?r1 = Return b (cascade_spec ?r1 key)"
      by blast
    then have "remove_loop (map (map_option addr) (rev p)) ?r1 = Return b (cascade_spec ?r1 key)"
      using same by (simp add: rev_map [symmetric])
    then show ?thesis
      using p l Some assms(1) r1 by (simp add: remove_trie_def rp remove_spec_def)
  qed
qed

text \<open>
  Claim C3. In a trie whose nodes have distinct addresses and consistent parent
  back-references under a root without parent, \<open>remove\<close> of a key of alphabet members
  returns the trie of the cascade as the specification words it: the target's value
  cleared, then the path walked back up, each node detached from its parent until the
  first one that still holds a value, still has a child, or is the root. In the
  scenario over the four-letter alphabet: \<open>cat\<close> and \<open>car\<close> are inserted into a new
  trie; \<open>remove("cat")\<close> leaves the trie in which \<open>search("car")\<close> yields its value,
  the node for \<open>cat\<close> (address 3) is gone and the nodes for \<open>c\<close> and \<open>ca\<close> remain;
  \<open>remove("car")\<close> then leaves the empty trie.
\<close>

theorem remove_prunes_bottom_up:
  "(isKeyCorrect A key \<and> distinct (addrs (m_root (t::'v trie))) \<and> owned (m_root t) \<and>
      m_parent (m_root t) = None \<longrightarrow>
    remove_trie A key t = Return () (Trie (remove_spec (m_root t) key))) \<and>
   insert_trie cart ''cat'' (v1::'v) (Trie_new cart 0) = Return True (trie_cat v1, 4) \<and>
   insert_trie cart ''car'' v2 (trie_cat v1, 4) = Return True (trie_cat_car v1 v2, 5) \<and>
   remove_trie cart ''cat'' (trie_cat_car v1 v2) = Return () (trie_car v2) \<and>
   search cart (trie_car v2) ''car'' = Inr (Some v2) \<and>
   search cart (trie_car v2) ''cat'' = Inr None \<and>
   node_at (m_root (trie_car v2)) ''cat'' = None \<and>
   node_at (m_root (trie_car v2)) ''c'' \<noteq> None \<and>
   node_at (m_root (trie_car v2)) ''ca'' \<noteq> None \<and>
   addrs (m_root (trie_cat_car v1 v2)) = [0, 1, 2, 4, 3] \<and>
   addrs (m_root (trie_car v2)) = [0, 1, 2, 4] \<and>
   remove_trie cart ''car'' (trie_car v2) = Return () (trie_none 0) \<and>
   empty (trie_none 0 :: 'v trie)"
proof -
  have general: "isKeyCorrect A key \<and> distinct (addrs (m_root t)) \<and> owned (m_root t) \<and>
      m_parent (m_root t) = None \<longrightarrow>
    remove_trie A key t = Return () (Trie (remove_spec (m_root t) key))"
    using remove_trie_spec by blast
  have i1: "insert_trie cart ''cat'' v1 (Trie_new cart 0) = Return True (trie_cat v1, 4)"
    by (simp add: scenario node_ops insert_trie_def eval_nat_numeral)
  have i2: "insert_trie cart ''car'' v2 (trie_cat v1, 4) = Return True (trie_cat_car v1 v2, 5)"
    by (simp add: scenario node_ops insert_trie_def eval_nat_numeral)
  have r1: "remove_trie cart ''cat'' (trie_cat_car v1 v2) = Return () (trie_car v2)"
    by (simp add: scenario node_ops remove_trie_def getPath_def)
  have s1: "search cart (trie_car v2) ''car'' = Inr (Some v2)"
    by (simp add: scenario node_ops search_def getPath_def vector_back_def)
  have s2: "search cart (trie_car v2) ''cat'' = Inr None"
    by (simp add: scenario node_ops search_def getPath_def vector_back_def)
  have n: "node_at (m_root (trie_car v2)) ''cat'' = None"
    "node_at (m_root (trie_car v2)) ''c'' \<noteq> None"
    "node_at (m_root (trie_car v2)) ''ca'' \<noteq> None"
    by (simp_all add: scenario)
  have a: "addrs (m_root (trie_cat_car v1 v2)) = [0, 1, 2, 4, 3]"
    "addrs (m_root (trie_car v2)) = [0, 1, 2, 4]"
    by (simp_all add: scenario)
  have r2: "remove_trie cart ''car'' (trie_car v2) = Return () (trie_none 0)"
    by (simp add: scenario node_ops remove_trie_def getPath_def)
  have e: "empty (trie_none 0 :: 'v trie)"
    by (simp add: scenario empty_def node_ops)
  from general i1 i2 r1 s1 s2 n a r2 e show ?thesis by blast
qed

text \<open>
  The general part at the trie holding \<open>cat\<close> and \<open>car\<close> and the key \<open>cat\<close>: the
  cascade of the specification gives the trie holding \<open>car\<close> alone.
\<close>

theorem remove_prunes_bottom_up_witness:
  "isKeyCorrect cart ''cat'' \<and> distinct (addrs (m_root (trie_cat_car (5::nat) 7))) \<and>
   owned (m_root (trie_cat_car (5::nat) 7)) \<and> m_parent (m_root (trie_cat_car (5::nat) 7)) = None \<and>
   remove_spec (m_root (trie_cat_car (5::nat) 7)) ''cat'' = m_root (trie_car 7) \<and>
   remove_trie cart ''cat'' (trie_cat_car (5::nat) 7) =
     Return () (Trie (remove_spec (m_root (trie_cat_car 5 7)) ''cat''))"
proof -
  have k: "isKeyCorrect cart ''cat''" by (simp add: cart_def isInAlphabet_def)
  have d: "distinct (addrs (m_root (trie_cat_car (5::nat) 7)))" by (simp add: scenario)
  have o: "owned (m_root (trie_cat_car (5::nat) 7))" by (simp add: scenario)
  have r: "m_parent (m_root (trie_cat_car (5::nat) 7)) = None" by (simp add: scenario)
  have s: "remove_spec (m_root (trie_cat_car (5::nat) 7)) ''cat'' = m_root (trie_car 7)"
    by (simp add: scenario node_ops remove_spec_def drop_child_def cascade_spec.simps)
  from remove_prunes_bottom_up [of cart "''cat''" "trie_cat_car (5::nat) 7", THEN conjunct1]
    k d o r
  have "remove_trie cart ''cat'' (trie_cat_car (5::nat) 7) =
     Return () (Trie (remove_spec (m_root (trie_cat_car 5 7)) ''cat''))"
    by blast
  with k d o r s show ?thesis by blast
qed

section \<open>The invariant is kept\<close>

lemma invariant_new: "invariant A (Trie_new A a)"
proof -
  have "addrs_slots (replicate m None :: 'a node option list) = []" for m
    by (induction m) simp_all
  moreover have "owned_slots b (replicate m None :: 'a node option list)" for b m
    by (induction m) simp_all
  moreover have "no_dead_slots (replicate m None :: 'a node option list)" for m
    by (induction m) simp_all
  ultimately show ?thesis
    by (simp add: invariant_def Trie_new_def new_Node_def sized_slots_replicate)
qed

lemma slots_replace_addrs:
  "set (addrs_slots (cs[i := Some ch'])) \<subseteq> set (addrs_slots cs) \<union> set (addrs ch')"
proof (induction cs arbitrary: i)
  case Nil
  then show ?case by simp
next
  case (Cons x xs)
  show ?case using Cons.IH by (cases x; cases i) auto
qed

lemma slots_replace_distinct:
  "distinct (addrs_slots cs) \<Longrightarrow> i < length cs \<Longrightarrow> distinct (addrs ch') \<Longrightarrow>
   set (addrs ch') \<inter> set (addrs_slots cs) \<subseteq> (case cs ! i of None \<Rightarrow> {} | Some c \<Rightarrow> set (addrs c)) \<Longrightarrow>
   distinct (addrs_slots (cs[i := Some ch']))"
proof (induction cs arbitrary: i)
  case Nil
  then show ?case by simp
next
  case (Cons x xs)
  show ?case
  proof (cases i)
    case 0
    with Cons.prems show ?thesis by (cases x) auto
  next
    case (Suc j)
    with Cons.prems have j: "j < length xs" by simp
    have sub: "set (addrs_slots (xs[j := Some ch'])) \<subseteq> set (addrs_slots xs) \<union> set (addrs ch')"
      by (rule slots_replace_addrs)
    show ?thesis
    proof (cases x)
      case None
      with Cons.prems Suc Cons.IH [OF _ j] show ?thesis by simp
    next
      case (Some c')
      have dxs: "distinct (addrs_slots xs)" and dc: "distinct (addrs c')"
        and disj: "set (addrs c') \<inter> set (addrs_slots xs) = {}"
        using Cons.prems(1) Some by auto
      have inter: "set (addrs ch') \<inter> set (addrs_slots xs) \<subseteq>
          (case xs ! j of None \<Rightarrow> {} | Some c \<Rightarrow> set (addrs c))"
        using Cons.prems(4) Some Suc by auto
      have d: "distinct (addrs_slots (xs[j := Some ch']))"
        using Cons.IH [OF dxs j Cons.prems(3) inter] .
      have inxs: "(case xs ! j of None \<Rightarrow> {} | Some c \<Rightarrow> set (addrs c)) \<subseteq> set (addrs_slots xs)"
        using addrs_slots_nth [OF j] by (auto split: option.splits)
      have "set (addrs c') \<inter> set (addrs ch') = {}"
      proof (rule ccontr)
        assume "set (addrs c') \<inter> set (addrs ch') \<noteq> {}"
        then obtain a where a: "a \<in> set (addrs c')" "a \<in> set (addrs ch')" by blast
        with Cons.prems(4) Some Suc
        have "a \<in> (case xs ! j of None \<Rightarrow> {} | Some c \<Rightarrow> set (addrs c))" by auto
        with inxs have "a \<in> set (addrs_slots xs)" by blast
        with a(1) disj show False by blast
      qed
      with d dc disj sub Some Suc show ?thesis by auto
    qed
  qed
qed

lemma no_dead_slots_update:
  "no_dead_slots cs \<Longrightarrow> hasValue ch' \<or> hasChildren ch' \<Longrightarrow> no_dead ch' \<Longrightarrow>
   no_dead_slots (cs[i := Some ch'])"
proof (induction cs arbitrary: i)
  case Nil
  then show ?case by simp
next
  case (Cons x xs)
  then show ?case by (cases x; cases i) auto
qed

lemma hasChildren_update:
  "i < length (m_children n) \<Longrightarrow> hasChildren (set_slot i (Some ch) n)"
proof -
  assume "i < length (m_children n)"
  then have "Some ch \<in> set ((m_children n)[i := Some ch])" by (rule set_update_memI)
  then show ?thesis by (auto simp: hasChildren_def list_ex_iff)
qed

lemma insert_loop_invariant:
  assumes "valid_key A key" and "sized A n" and "distinct (addrs n)" and "owned n"
    and "no_dead n" and "\<forall>a\<in>set (addrs n). a < nxt"
    and "insert_loop A n key v nxt = Return b (n', nxt')"
  shows "distinct (addrs n') \<and> owned n' \<and> no_dead n' \<and> (\<forall>a\<in>set (addrs n'). a < nxt') \<and>
         nxt \<le> nxt' \<and> set (addrs n') \<subseteq> set (addrs n) \<union> {nxt..<nxt'} \<and>
         (hasValue n' \<or> hasChildren n') \<and> addr n' = addr n \<and> m_parent n' = m_parent n"
  using assms
proof (induction key arbitrary: n nxt b n' nxt')
  case Nil
  then show ?case
    by (cases n) (auto simp: hasValue_def setValue_def split: if_splits)
next
  case (Cons c cs)
  from Cons.prems(1) have c: "0 \<le> alpha_ord A c" "alpha_ord A c < int (alpha_size A)"
    and cs: "valid_key A cs"
    by (auto simp: valid_key_def)
  from Cons.prems(2) have len: "length (m_children n) = alpha_size A"
    and ss: "sized_slots A (m_children n)"
    by (auto simp: sized_node)
  from c have ch: "child A n c = Inr (child_scan c (m_children n))"
    by (auto simp: child_def)
  from Cons.prems(3) have d: "distinct (addrs_slots (m_children n))"
    and r: "addr n \<notin> set (addrs_slots (m_children n))"
    by (auto simp: addrs_node [of n])
  from Cons.prems(4) have os: "owned_slots (addr n) (m_children n)" by (simp add: owned_node)
  from Cons.prems(5) have nd: "no_dead_slots (m_children n)" by (simp add: no_dead_node)
  from Cons.prems(6) have below: "\<forall>a\<in>set (addrs_slots (m_children n)). a < nxt"
    and rbelow: "addr n < nxt"
    by (auto simp: addrs_node [of n])
  have final: "distinct (addrs (set_slot i (Some x) n)) \<and> owned (set_slot i (Some x) n) \<and>
      no_dead (set_slot i (Some x) n) \<and> (\<forall>a\<in>set (addrs (set_slot i (Some x) n)). a < k') \<and>
      set (addrs (set_slot i (Some x) n)) \<subseteq> set (addrs n) \<union> {nxt..<k'} \<and>
      (hasValue (set_slot i (Some x) n) \<or> hasChildren (set_slot i (Some x) n))"
    if i: "i < length (m_children n)"
      and dx: "distinct (addrs x)" and ox: "owned x" and nx: "no_dead x"
      and bx: "\<forall>a\<in>set (addrs x). a < k'" and le: "nxt \<le> k'"
      and sx: "set (addrs x) \<subseteq> (case m_children n ! i of None \<Rightarrow> {} | Some c \<Rightarrow> set (addrs c)) \<union> {nxt..<k'}"
      and ax: "hasValue x \<or> hasChildren x" and px: "m_parent x = Some (addr n)"
    for i x k'
  proof -
    have inter: "set (addrs x) \<inter> set (addrs_slots (m_children n)) \<subseteq>
        (case m_children n ! i of None \<Rightarrow> {} | Some c \<Rightarrow> set (addrs c))"
      using sx below by fastforce
    have d': "distinct (addrs_slots ((m_children n)[i := Some x]))"
      using slots_replace_distinct [OF d i dx inter] .
    have inn: "(case m_children n ! i of None \<Rightarrow> {} | Some c \<Rightarrow> set (addrs c)) \<subseteq>
        set (addrs_slots (m_children n))"
      using addrs_slots_nth [OF i] by (auto split: option.splits)
    have sub: "set (addrs_slots ((m_children n)[i := Some x])) \<subseteq>
        set (addrs_slots (m_children n)) \<union> {nxt..<k'}"
      using slots_replace_addrs [of "m_children n" i x] sx inn by blast
    have notin: "addr n \<notin> set (addrs_slots ((m_children n)[i := Some x]))"
      using sub r rbelow by auto
    have o': "owned_slots (addr n) ((m_children n)[i := Some x])"
      using owned_slots_update [OF os px ox] .
    have n': "no_dead_slots ((m_children n)[i := Some x])"
      using no_dead_slots_update [OF nd ax nx] .
    have b': "\<forall>a\<in>set (addrs_slots ((m_children n)[i := Some x])). a < k'"
      using sub below le bx slots_replace_addrs [of "m_children n" i x] by fastforce
    show ?thesis
      using d' notin o' n' b' sub rbelow le hasChildren_update [OF i]
      by (auto simp: addrs_node [of "set_slot i (Some x) n"] addrs_node [of n]
            owned_node [of "set_slot i (Some x) n"] no_dead_node [of "set_slot i (Some x) n"])
  qed
  show ?case
  proof (cases "child_scan c (m_children n)")
    case (Some ich)
    obtain i tmp where ich: "ich = (i, tmp)" by (cases ich)
    with Some have sc: "child_scan c (m_children n) = Some (i, tmp)" by simp
    from child_scan_SomeD [OF sc] have i: "i < length (m_children n)"
      and nth: "m_children n ! i = Some tmp"
      by auto
    from Cons.prems(7) ch sc obtain tmp' where
      run: "insert_loop A tmp cs v nxt = Return b (tmp', nxt')"
      and n': "n' = set_slot i (Some tmp') n"
      by (cases "insert_loop A tmp cs v nxt") (auto split: prod.splits)
    have below_tmp: "\<forall>a\<in>set (addrs tmp). a < nxt"
      using addrs_slots_nth [OF i nth] below by blast
    from owned_slots_nth [OF os i nth] have pt: "m_parent tmp = Some (addr n)" and ot: "owned tmp"
      by auto
    from no_dead_slots_nth [OF nd i nth] have nt: "no_dead tmp" by simp
    from Cons.IH [OF cs sized_slots_nth [OF ss i nth] distinct_slots_nth [OF d i nth]
        ot nt below_tmp run]
    have ih: "distinct (addrs tmp')" "owned tmp'" "no_dead tmp'" "\<forall>a\<in>set (addrs tmp'). a < nxt'"
      "nxt \<le> nxt'" "set (addrs tmp') \<subseteq> set (addrs tmp) \<union> {nxt..<nxt'}"
      "hasValue tmp' \<or> hasChildren tmp'" "m_parent tmp' = m_parent tmp"
      by auto
    from final [OF i ih(1,2,3,4,5) _ ih(7)] ih(6,8) pt nth n' ih(5) show ?thesis by simp
  next
    case None
    let ?i = "nat (alpha_ord A c)"
    let ?new = "set_key c (new_Node A nxt (Some (addr n))) :: 'a node"
    let ?n1 = "set_slot ?i (Some ?new) n"
    have i: "?i < length (m_children n)" using c len by simp
    have cc: "createChild A c n nxt = Inr (?n1, ?i, Suc nxt)"
      using c i len by (simp add: createChild_def Let_def)
    have nth: "m_children ?n1 ! ?i = Some ?new" using i by simp
    from Cons.prems(7) ch None cc nth obtain new' where
      run: "insert_loop A ?new cs v (Suc nxt) = Return b (new', nxt')"
      and n': "n' = set_slot ?i (Some new') ?n1"
      by (cases "insert_loop A ?new cs v (Suc nxt)") (auto split: prod.splits)
    have an: "addrs_slots (replicate m None :: 'a node option list) = []" for m
      by (induction m) simp_all
    have on: "owned_slots a (replicate m None :: 'a node option list)" for a m
      by (induction m) simp_all
    have nn: "no_dead_slots (replicate m None :: 'a node option list)" for m
      by (induction m) simp_all
    have new: "sized A ?new" "distinct (addrs ?new)" "owned ?new" "no_dead ?new"
      "\<forall>a\<in>set (addrs ?new). a < Suc nxt" "addrs ?new = [nxt]"
      "m_parent ?new = Some (addr n)"
      by (simp_all add: set_key_def new_Node_def sized_slots_replicate an on nn)
    from Cons.IH [OF cs new(1,2,3,4,5) run]
    have ih: "distinct (addrs new')" "owned new'" "no_dead new'" "\<forall>a\<in>set (addrs new'). a < nxt'"
      "Suc nxt \<le> nxt'" "set (addrs new') \<subseteq> set (addrs ?new) \<union> {Suc nxt..<nxt'}"
      "hasValue new' \<or> hasChildren new'" "m_parent new' = m_parent ?new"
      by auto
    have le: "nxt \<le> nxt'" using ih(5) by simp
    have sx: "set (addrs new') \<subseteq>
        (case m_children n ! ?i of None \<Rightarrow> {} | Some c \<Rightarrow> set (addrs c)) \<union> {nxt..<nxt'}"
      using ih(6,5) new(6) by auto
    have px: "m_parent new' = Some (addr n)" using ih(8) new(7) by simp
    have eq: "n' = set_slot ?i (Some new') n"
      using n' by (cases n) (simp add: set_slot_def set_children_def)
    from final [OF i ih(1,2,3,4) le sx ih(7) px] eq le show ?thesis by simp
  qed
qed

lemma invariant_insert:
  assumes "valid_key A key" and "invariant A s"
  shows "\<exists>b s'. insert_trie A key v s = Return b s' \<and> invariant A s'"
proof -
  obtain t nxt where s: "s = (t, nxt)" by (cases s)
  from assms(2) s have inv: "sized A (m_root t)" "distinct (addrs (m_root t))" "owned (m_root t)"
    "m_parent (m_root t) = None" "no_dead (m_root t)" "\<forall>a\<in>set (addrs (m_root t)). a < nxt"
    by (auto simp: invariant_def list_all_iff)
  from insert_loop_spec [OF assms(1) inv(1), of v nxt] obtain b n' nxt' where
    run: "insert_loop A (m_root t) key v nxt = Return b (n', nxt')" and sz: "sized A n'"
    by blast
  from insert_loop_invariant [OF assms(1) inv(1,2,3,5,6) run] inv(4) sz
  have "invariant A (Trie n', nxt')"
    by (auto simp: invariant_def list_all_iff)
  moreover have "insert_trie A key v s = Return b (Trie n', nxt')"
    using run s valid_key_correct [OF assms(1)] by (simp add: insert_trie_def)
  ultimately show ?thesis by blast
qed

lemma sized_slots_drop: "sized_slots A cs \<Longrightarrow> sized_slots A (cs[i := None])"
proof (induction cs arbitrary: i)
  case Nil
  then show ?case by simp
next
  case (Cons x xs)
  then show ?case by (cases x; cases i) auto
qed

lemma drop_child_sized: "sized A m \<Longrightarrow> sized A (drop_child c m)"
  using sized_slots_drop [of A "m_children m"]
  by (auto simp: drop_child_def sized_node [of A m] sized_node [of A "set_slot i None m" for i]
           split: option.splits)

lemma removeValue_sized: "sized A (removeValue m) = sized A m"
  by (simp add: sized_node [of A m] sized_node [of A "removeValue m"])

lemma update_at_sized:
  assumes "\<And>m. sized A m \<Longrightarrow> sized A (f m)"
  shows "sized A n \<Longrightarrow> sized A (update_at n ks f)"
proof (induction ks arbitrary: n)
  case Nil
  then show ?case using assms by simp
next
  case (Cons c cs)
  show ?case
  proof (cases "child_scan c (m_children n)")
    case None
    with Cons.prems show ?thesis by simp
  next
    case (Some ich)
    obtain i ch where "ich = (i, ch)" by (cases ich)
    with Some have sc: "child_scan c (m_children n) = Some (i, ch)" by simp
    from child_scan_SomeD [OF sc] have i: "i < length (m_children n)"
      and nth: "m_children n ! i = Some ch" by auto
    from Cons.prems have len: "length (m_children n) = alpha_size A"
      and ss: "sized_slots A (m_children n)"
      by (auto simp: sized_node)
    from sized_slots_update [OF ss Cons.IH [OF sized_slots_nth [OF ss i nth]]] len sc
    show ?thesis by (simp add: sized_node [of A "set_slot i (Some (update_at ch cs f)) n"])
  qed
qed

lemma cascade_spec_keeps:
  assumes "\<And>r ks c. P r \<Longrightarrow> P (update_at r ks (drop_child c))"
  shows "P r \<Longrightarrow> P (cascade_spec r pos)"
proof (induction r pos rule: cascade_spec.induct)
  case (1 root pos)
  show ?case
  proof (cases "node_at root pos")
    case None
    with "1.prems" show ?thesis by (simp add: cascade_spec.simps [of root pos])
  next
    case (Some n)
    show ?thesis
    proof (cases "hasValue n \<or> hasChildren n \<or> pos = []")
      case True
      with Some "1.prems" show ?thesis by (simp add: cascade_spec.simps [of root pos])
    next
      case False
      from "1.IH" [OF Some False assms [OF "1.prems"]] Some False show ?thesis
        by (simp add: cascade_spec.simps [of root pos])
    qed
  qed
qed

lemma remove_spec_keeps_shape:
  assumes "sized A r" and "distinct (addrs r)" and "owned r" and "m_parent r = None"
    and "\<forall>a\<in>set (addrs r). a < nxt"
  shows "sized A (remove_spec r key) \<and> distinct (addrs (remove_spec r key)) \<and>
         owned (remove_spec r key) \<and> m_parent (remove_spec r key) = None \<and>
         (\<forall>a\<in>set (addrs (remove_spec r key)). a < nxt)"
proof -
  let ?P = "\<lambda>r::'a node. sized A r \<and> distinct (addrs r) \<and> owned r \<and> m_parent r = None \<and>
      (\<forall>a\<in>set (addrs r). a < nxt)"
  have step: "?P (update_at r ks (drop_child c))" if "?P r" for r ks c
  proof -
    have "sized A (update_at r ks (drop_child c))"
      using update_at_sized [of A "drop_child c", OF drop_child_sized] that by blast
    moreover have "distinct (addrs (update_at r ks (drop_child c)))"
      using update_at_distinct [of "drop_child c", OF drop_child_addrs drop_child_distinct] that
      by blast
    moreover have "owned (update_at r ks (drop_child c))"
      by (rule update_at_owned) (simp_all add: drop_child_owned that)
    moreover have "m_parent (update_at r ks (drop_child c)) = None"
      using update_at_sel(3) [of "drop_child c" r ks] that by simp
    moreover have "\<forall>a\<in>set (addrs (update_at r ks (drop_child c))). a < nxt"
      using update_at_addrs [of "drop_child c" r ks, OF drop_child_addrs] that by blast
    ultimately show ?thesis by blast
  qed
  have clear: "?P (update_at r key removeValue)"
  proof -
    have "sized A (update_at r key removeValue)"
      using update_at_sized [of A removeValue] assms(1) by (simp add: removeValue_sized)
    moreover have "distinct (addrs (update_at r key removeValue))"
      using update_at_distinct [of removeValue] assms(2) by (simp add: removeValue_addrs)
    moreover have "owned (update_at r key removeValue)"
      by (rule update_at_owned) (simp_all add: removeValue_owned assms(3))
    moreover have "m_parent (update_at r key removeValue) = None"
      using update_at_sel(3) [of removeValue r key] assms(4) by simp
    moreover have "\<forall>a\<in>set (addrs (update_at r key removeValue)). a < nxt"
      using update_at_addrs [of removeValue r key] assms(5) by (auto simp: removeValue_addrs)
    ultimately show ?thesis by blast
  qed
  have "?P (cascade_spec (update_at r key removeValue) key)"
    using cascade_spec_keeps [of ?P, OF step clear] .
  with assms show ?thesis by (simp add: remove_spec_def split: option.splits)
qed

subsection \<open>No dead end is left\<close>

lemma no_dead_sub: "no_dead n \<Longrightarrow> node_at n ks = Some m \<Longrightarrow> no_dead m"
proof (induction ks arbitrary: n)
  case Nil
  then show ?case by simp
next
  case (Cons c cs)
  then obtain i ch where sc: "child_scan c (m_children n) = Some (i, ch)"
    and m: "node_at ch cs = Some m"
    by (auto split: option.splits)
  from child_scan_SomeD [OF sc] Cons.prems(1) no_dead_slots_nth
  have "no_dead ch" by (auto simp: no_dead_node [of n])
  from Cons.IH [OF this m] show ?case .
qed

lemma no_dead_update_at:
  "node_at n ks = Some m \<Longrightarrow> no_dead n \<Longrightarrow> no_dead (f m) \<Longrightarrow>
   ks = [] \<or> hasValue (f m) \<or> hasChildren (f m) \<Longrightarrow> no_dead (update_at n ks f)"
proof (induction ks arbitrary: n)
  case Nil
  then show ?case by simp
next
  case (Cons c cs)
  then obtain i ch where sc: "child_scan c (m_children n) = Some (i, ch)"
    and m: "node_at ch cs = Some m"
    by (auto split: option.splits)
  from child_scan_SomeD [OF sc] have i: "i < length (m_children n)"
    and nth: "m_children n ! i = Some ch" by auto
  from Cons.prems(2) have nd: "no_dead_slots (m_children n)" by (simp add: no_dead_node)
  from no_dead_slots_nth [OF nd i nth] have ch: "no_dead ch" by simp
  from Cons.prems(4) have alive: "hasValue (f m) \<or> hasChildren (f m)" by simp
  have ih: "no_dead (update_at ch cs f)"
    using Cons.IH [OF m ch Cons.prems(3)] alive by simp
  have "hasValue (update_at ch cs f) \<or> hasChildren (update_at ch cs f)"
  proof (cases cs)
    case Nil
    with m alive show ?thesis by simp
  next
    case (Cons c' cs')
    with m obtain j ch' where sc': "child_scan c' (m_children ch) = Some (j, ch')"
      by (auto split: option.splits)
    from child_scan_SomeD [OF sc'] have "j < length (m_children ch)" by simp
    from hasChildren_update [OF this] sc' Cons show ?thesis by simp
  qed
  from no_dead_slots_update [OF nd this ih] sc show ?case
    by (simp add: no_dead_node [of "set_slot i (Some (update_at ch cs f)) n"])
qed

lemma update_at_missing: "node_at n ks = None \<Longrightarrow> update_at n ks f = n"
proof (induction ks arbitrary: n)
  case Nil
  then show ?case by simp
next
  case (Cons c cs)
  show ?case
  proof (cases "child_scan c (m_children n)")
    case None
    then show ?thesis by simp
  next
    case (Some ich)
    obtain i ch where "ich = (i, ch)" by (cases ich)
    with Some have sc: "child_scan c (m_children n) = Some (i, ch)" by simp
    from child_scan_SomeD [OF sc] have i: "i < length (m_children n)"
      and nth: "m_children n ! i = Some ch" by auto
    from Cons.prems sc have "node_at ch cs = None" by simp
    from Cons.IH [OF this] sc set_slot_same [OF i nth] show ?thesis by simp
  qed
qed

lemma set_slot_twice: "set_slot i x (set_slot i y n) = set_slot i x n"
  by (simp add: set_slot_def set_children_def)

lemma update_at_twice:
  assumes "\<And>m. addr (f m) = addr m" and "\<And>m. m_key (f m) = m_key m"
    and "\<And>m. m_parent (f m) = m_parent m"
  shows "update_at (update_at n ks f) ks g = update_at n ks (\<lambda>x. g (f x))"
proof (induction ks arbitrary: n)
  case Nil
  show ?case by simp
next
  case (Cons c cs)
  show ?case
  proof (cases "child_scan c (m_children n)")
    case None
    then show ?thesis by simp
  next
    case (Some ich)
    obtain i ch where "ich = (i, ch)" by (cases ich)
    with Some have sc: "child_scan c (m_children n) = Some (i, ch)" by simp
    from child_scan_SomeD [OF sc] have k: "m_key ch = c" by simp
    have "m_key (update_at ch cs f) = c" using update_at_sel(2) [of f, OF assms] k by simp
    from child_scan_update_Some [OF sc this] sc Cons.IH [of ch] show ?thesis
      by (simp add: set_slot_twice)
  qed
qed

lemma update_at_append:
  "update_at n (ks @ ks') f = update_at n ks (\<lambda>x. update_at x ks' f)"
  by (induction ks arbitrary: n) (auto split: option.splits)

lemma setValue_sel [simp]:
  "addr (setValue v m) = addr m" "m_key (setValue v m) = m_key m"
  "m_parent (setValue v m) = m_parent m" "m_children (setValue v m) = m_children m"
  "m_value (setValue v m) = Some v"
  by (simp_all add: setValue_def)

lemma no_dead_setValue: "no_dead (setValue v m) = no_dead m"
  by (simp add: no_dead_node [of m] no_dead_node [of "setValue v m"])

lemma no_dead_removeValue: "no_dead (removeValue m) = no_dead m"
  by (simp add: no_dead_node [of m] no_dead_node [of "removeValue m"])

lemma no_dead_slots_drop: "no_dead_slots cs \<Longrightarrow> no_dead_slots (cs[i := None])"
proof (induction cs arbitrary: i)
  case Nil
  then show ?case by simp
next
  case (Cons x xs)
  then show ?case by (cases x; cases i) auto
qed

lemma no_dead_drop_child: "no_dead m \<Longrightarrow> no_dead (drop_child c m)"
  using no_dead_slots_drop [of "m_children m"]
  by (auto simp: drop_child_def no_dead_node [of m] no_dead_node [of "set_slot i None m" for i]
           split: option.splits)

text \<open>
  A tree has no dead end apart from the node at a position when giving that node a
  value leaves none.
\<close>

lemma cascade_start:
  assumes "no_dead r" and "node_at r key = Some m"
  shows "no_dead (update_at (update_at r key removeValue) key (setValue v))"
proof -
  have "update_at (update_at r key removeValue) key (setValue v) =
      update_at r key (\<lambda>x. setValue v (removeValue x))"
    by (rule update_at_twice) simp_all
  moreover have "no_dead (update_at r key (\<lambda>x. setValue v (removeValue x)))"
    using no_dead_update_at [OF assms(2,1), of "\<lambda>x. setValue v (removeValue x)"]
      no_dead_sub [OF assms]
    by (simp add: no_dead_setValue no_dead_removeValue hasValue_def)
  ultimately show ?thesis by simp
qed

lemma cascade_stop:
  assumes "node_at r pos = Some m" and "no_dead (update_at r pos (setValue v))"
    and "hasValue m \<or> hasChildren m \<or> pos = []"
  shows "no_dead r"
proof -
  let ?R = "update_at r pos (setValue v)"
  have at: "node_at ?R pos = Some (setValue v m)"
    using node_at_update_at [of "setValue v" r pos] assms(1) by simp
  from no_dead_sub [OF assms(2) at] have m: "no_dead m" by (simp add: no_dead_setValue)
  have "no_dead (update_at ?R pos (\<lambda>_. m))"
    using no_dead_update_at [OF at assms(2), of "\<lambda>_. m"] m assms(3) by auto
  moreover have "update_at ?R pos (\<lambda>_. m) = update_at r pos (\<lambda>x. m)"
    by (rule update_at_twice) simp_all
  moreover have "update_at r pos (\<lambda>x. m) = r"
    using update_at_id [OF assms(1), of "\<lambda>x. m"] by simp
  ultimately show ?thesis by simp
qed

lemma cascade_step:
  assumes "node_at r (ks @ [c]) = Some m"
    and "no_dead (update_at r (ks @ [c]) (setValue v))"
  shows "no_dead (update_at (update_at r ks (drop_child c)) ks (setValue v))"
proof -
  from assms(1) obtain pm i where pm: "node_at r ks = Some pm"
    and sc: "child_scan c (m_children pm) = Some (i, m)"
    by (auto simp: node_at_append split: option.splits)
  let ?F = "\<lambda>x. update_at x [c] (setValue v)"
  let ?h = "\<lambda>x. setValue v (drop_child c x)"
  let ?R = "update_at r ks ?F"
  have R: "update_at r (ks @ [c]) (setValue v) = ?R" by (rule update_at_append)
  have sel: "addr (?F x) = addr x" "m_key (?F x) = m_key x" "m_parent (?F x) = m_parent x" for x
    by (simp_all split: option.splits)
  have atR: "node_at ?R ks = Some (?F pm)"
    using node_at_update_at [of ?F r ks, OF sel] pm by simp
  have ndR: "no_dead ?R" using assms(2) R by simp
  have "no_dead (?F pm)" using no_dead_sub [OF ndR atR] .
  then have "no_dead (?h (?F pm))" by (simp add: no_dead_setValue no_dead_drop_child)
  moreover have "hasValue (?h (?F pm))" by (simp add: hasValue_def)
  ultimately have "no_dead (update_at ?R ks ?h)"
    using no_dead_update_at [OF atR ndR, of ?h] by blast
  moreover have "update_at ?R ks ?h = update_at r ks (\<lambda>x. ?h (?F x))"
    by (rule update_at_twice) (simp_all split: option.splits)
  moreover have "update_at r ks (\<lambda>x. ?h (?F x)) = update_at r ks ?h"
  proof (rule update_at_cong [OF pm])
    have key: "m_key (setValue v m) = c" using child_scan_SomeD [OF sc] by simp
    have "child_scan c ((m_children pm)[i := Some (setValue v m)]) = Some (i, setValue v m)"
      using child_scan_update_Some [OF sc key] .
    then show "?h (?F pm) = ?h pm"
      using sc by (simp add: drop_child_def set_slot_twice)
  qed
  moreover have "update_at (update_at r ks (drop_child c)) ks (setValue v) = update_at r ks ?h"
    by (rule update_at_twice) simp_all
  ultimately show ?thesis by simp
qed

lemma cascade_spec_no_dead:
  "no_dead (update_at r pos (setValue v)) \<Longrightarrow> no_dead (cascade_spec r pos)"
proof (induction r pos rule: cascade_spec.induct)
  case (1 root pos)
  show ?case
  proof (cases "node_at root pos")
    case None
    with "1.prems" update_at_missing [OF None, of "setValue v"] show ?thesis
      by (simp add: cascade_spec.simps [of root pos])
  next
    case (Some n)
    show ?thesis
    proof (cases "hasValue n \<or> hasChildren n \<or> pos = []")
      case True
      with Some cascade_stop [OF Some "1.prems"] show ?thesis
        by (simp add: cascade_spec.simps [of root pos])
    next
      case False
      then have pos: "pos = butlast pos @ [last pos]" by simp
      have at: "node_at root (butlast pos @ [last pos]) = Some n" using Some pos by simp
      have nd: "no_dead (update_at root (butlast pos @ [last pos]) (setValue v))"
        using "1.prems" pos by simp
      from "1.IH" [OF Some False cascade_step [OF at nd]] Some False show ?thesis
        by (simp add: cascade_spec.simps [of root pos])
    qed
  qed
qed

lemma remove_spec_no_dead: "no_dead r \<Longrightarrow> no_dead (remove_spec r key)"
proof (cases "node_at r key")
  case None
  assume "no_dead r"
  with None show ?thesis by (simp add: remove_spec_def)
next
  case (Some m)
  assume "no_dead r"
  from cascade_spec_no_dead [OF cascade_start [OF this Some, of undefined]] Some
  show ?thesis by (simp add: remove_spec_def)
qed

text \<open>
  \<open>remove\<close> returns for every key of alphabet members and keeps the invariant; so do
  \<open>insert\<close> and \<open>operator[]\<close>.
\<close>

lemma invariant_remove:
  assumes "isKeyCorrect A key" and "invariant A (t, nxt)"
  shows "remove_trie A key t = Return () (Trie (remove_spec (m_root t) key)) \<and>
         invariant A (Trie (remove_spec (m_root t) key), nxt)"
proof -
  from assms(2) have inv: "sized A (m_root t)" "distinct (addrs (m_root t))" "owned (m_root t)"
    "m_parent (m_root t) = None" "no_dead (m_root t)" "\<forall>a\<in>set (addrs (m_root t)). a < nxt"
    by (auto simp: invariant_def list_all_iff)
  from remove_spec_keeps_shape [OF inv(1,2,3,4,6), of key] remove_spec_no_dead [OF inv(5), of key]
  have "invariant A (Trie (remove_spec (m_root t) key), nxt)"
    by (simp add: invariant_def list_all_iff)
  with remove_trie_spec [OF assms(1) inv(2,3,4)] show ?thesis by simp
qed

lemma invariant_index:
  assumes "valid_key A key" and "invariant A s"
  shows "\<exists>v s'. index_trie A dflt key s = Return v s' \<and> invariant A s'"
proof -
  obtain t nxt where s: "s = (t, nxt)" by (cases s)
  from assms(2) s have sz: "sized A (m_root t)" by (simp add: invariant_def)
  show ?thesis
  proof (cases "value_at (m_root t) key")
    case None
    with index_trie_spec [OF assms(1) sz, of dflt nxt] obtain t' nxt' where
      i: "index_trie A dflt key (t, nxt) = Return dflt (t', nxt')"
      and r: "insert_trie A key dflt (t, nxt) = Return True (t', nxt')"
      by blast
    from invariant_insert [OF assms, of dflt] r s have "invariant A (t', nxt')" by auto
    with i s show ?thesis by blast
  next
    case (Some v)
    with index_trie_spec [OF assms(1) sz, of dflt nxt]
    have "index_trie A dflt key (t, nxt) = Return v (t, nxt)" by blast
    with assms(2) s show ?thesis by blast
  qed
qed

section \<open>Enumeration on any trie\<close>

lemma getItems_key_length:
  "getItems (n::'v node) acc key = Inr (acc', key') \<Longrightarrow> length key' \<le> length key"
  "getItems_slots (cs::'v node option list) acc key = Inr (acc', key') \<Longrightarrow> length key' \<le> length key"
proof (induction n acc key and cs acc key arbitrary: acc' key' and acc' key'
    rule: getItems_getItems_slots.induct)
  case (1 a p cs v k items key)
  let ?key1 = "if p \<noteq> None then key @ [k] else key"
  let ?items1 = "case v of Some x \<Rightarrow> items @ [(?key1, x)] | None \<Rightarrow> items"
  from "1.prems" obtain items2 key2 where
    s: "getItems_slots cs ?items1 ?key1 = Inr (items2, key2)" and ne: "key2 \<noteq> []"
    and k': "key' = butlast key2"
    by (auto simp: Let_def split: sum.splits if_splits)
  from "1.IH" [OF refl refl s] have "length key2 \<le> length ?key1" .
  with ne k' show ?case by (cases key2 rule: rev_cases) (auto split: if_splits)
next
  case (2 items key)
  then show ?case by simp
next
  case (3 cs items key)
  then show ?case by simp
next
  case (4 c cs items key)
  from "4.prems" obtain items1 key1 where
    c: "getItems c items key = Inr (items1, key1)"
    and s: "getItems_slots cs items1 key1 = Inr (acc', key')"
    by (auto split: sum.splits)
  from "4.IH"(1) [OF c] "4.IH"(2) [OF c refl s] show ?case by simp
qed

lemma getItems_fault:
  "getItems (n::'v node) acc key = Inl e \<Longrightarrow> e = Undefined PopEmptyString"
  "getItems_slots (cs::'v node option list) acc key = Inl e \<Longrightarrow> e = Undefined PopEmptyString"
proof (induction n acc key and cs acc key rule: getItems_getItems_slots.induct)
  case (1 a p cs v k items key)
  then show ?case by (auto simp: Let_def split: sum.splits if_splits)
next
  case (2 items key)
  then show ?case by simp
next
  case (3 cs items key)
  then show ?case by simp
next
  case (4 c cs items key)
  then show ?case by (auto split: sum.splits)
qed

text \<open>On every trie whose root has no parent, \<open>items()\<close> ends in that \<open>pop_back\<close>.\<close>

lemma items_root_pops_empty:
  assumes "m_parent (m_root t) = None"
  shows "items t = Inl (Undefined PopEmptyString)"
proof (cases "getItems (m_root t) [] []")
  case (Inl e)
  with getItems_fault(1) [OF Inl] show ?thesis by (simp add: items_def)
next
  case (Inr r)
  obtain list key where r: "r = (list, key)" by (cases r)
  obtain a p cs v k where n: "m_root t = Node a p cs v k" by (cases "m_root t")
  with assms have p: "p = None" by simp
  from Inr r n p obtain items1 items2 key2 where
    s: "getItems_slots cs items1 [] = Inr (items2, key2)" and ne: "key2 \<noteq> []"
    by (auto simp: Let_def split: sum.splits if_splits)
  from getItems_key_length(2) [OF s] ne show ?thesis by simp
qed

section \<open>The path of a key\<close>

lemma child_scan_first_labelled:
  "map_option snd (child_scan c cs) = first_labelled c cs"
  by (induction c cs rule: child_scan.induct)
     (auto simp: first_labelled_def option.map_comp comp_def split: option.splits)

lemma node_at_key_node: "node_at n key = key_node n key"
proof (induction key arbitrary: n)
  case Nil
  show ?case by simp
next
  case (Cons c cs)
  show ?case
    using Cons.IH child_scan_first_labelled [of c "m_children n"]
    by (cases "child_scan c (m_children n)") (auto split: option.splits)
qed

lemma node_at_take_None:
  "node_at n (take i key) = None \<Longrightarrow> i \<le> j \<Longrightarrow> node_at n (take j key) = None"
proof -
  assume none: "node_at n (take i key) = None" and le: "i \<le> j"
  have "take j key = take i key @ take (j - i) (drop i key)"
    using le by (metis le_add_diff_inverse take_add)
  then show ?thesis using none by (simp add: node_at_append)
qed

lemma getPath_nth:
  "getPath A n key = Inr path \<Longrightarrow> i < length path \<Longrightarrow>
   path ! i = node_at n (take i key) \<and> (Suc i < length path \<longrightarrow> path ! i \<noteq> None)"
proof (induction key arbitrary: n path i)
  case Nil
  then show ?case by (auto simp: getPath_Nil)
next
  case (Cons c cs)
  show ?case
  proof (cases "child A n c")
    case (Inl e)
    with Cons.prems show ?thesis by (simp add: getPath_Cons)
  next
    case (Inr r)
    then have r: "r = child_scan c (m_children n)"
      by (auto simp: child_def split: if_splits)
    show ?thesis
    proof (cases r)
      case None
      with Inr Cons.prems have p: "path = [Some n, None]" by (auto simp: getPath_Cons)
      have sc: "child_scan c (m_children n) = None" using r None by simp
      from p Cons.prems(2) sc show ?thesis by (cases i) auto
    next
      case (Some ich)
      obtain s ch where ich: "ich = (s, ch)" by (cases ich)
      from Cons.prems(1) Inr Some ich obtain q where q: "getPath A ch cs = Inr q"
        and p: "path = Some n # q"
        by (auto simp: getPath_Cons split: sum.splits)
      have sc: "child_scan c (m_children n) = Some (s, ch)" using r Some ich by simp
      show ?thesis
      proof (cases i)
        case 0
        with p show ?thesis by simp
      next
        case (Suc j)
        with Cons.prems(2) p have j: "j < length q" by simp
        have e: "q ! j = node_at ch (take j cs)"
          using Cons.IH [OF q j] by (rule conjunct1)
        have f: "Suc j < length q \<longrightarrow> q ! j \<noteq> None"
          using Cons.IH [OF q j] by (rule conjunct2)
        have t: "node_at n (take i (c # cs)) = node_at ch (take j cs)" using Suc sc by simp
        have pi: "path ! i = q ! j" using Suc p by simp
        show ?thesis unfolding t pi
        proof (intro conjI impI)
          show "q ! j = node_at ch (take j cs)" by (rule e)
        next
          assume "Suc i < length path"
          with Suc p have "Suc j < length q" by simp
          with f show "q ! j \<noteq> None" by blast
        qed
      qed
    qed
  qed
qed

lemma getPath_faults:
  "getPath A n key = Inl e \<Longrightarrow> e = Raised LetterNotMember \<and> \<not> isKeyCorrect A key"
proof (induction key arbitrary: n)
  case Nil
  then show ?case by (simp add: getPath_Nil)
next
  case (Cons c cs)
  show ?case
  proof (cases "alpha_ord A c = - 1")
    case True
    with Cons.prems show ?thesis by (auto simp: getPath_Cons child_def isInAlphabet_def)
  next
    case False
    then have ch: "child A n c = Inr (child_scan c (m_children n))" by (simp add: child_def)
    show ?thesis
    proof (cases "child_scan c (m_children n)")
      case None
      with Cons.prems ch show ?thesis by (simp add: getPath_Cons)
    next
      case (Some ich)
      obtain s x where "ich = (s, x)" by (cases ich)
      with Cons.prems ch Some have "getPath A x cs = Inl e"
        by (auto simp: getPath_Cons split: sum.splits)
      from Cons.IH [OF this] show ?thesis by simp
    qed
  qed
qed

text \<open>
  Claim C9 as stated fails twice. On a node without children the key \<open>a\<close> has no
  node, and the path returned is the receiver and the null marker: its length is
  \<open>key.length() + 1\<close>, not less. And for the key \<open>x\<close>, whose symbol is outside the
  alphabet, \<open>getPath\<close> returns no sequence: \<open>Node::child\<close> raises.
\<close>

theorem getPath_short_counterexample:
  "getPath cart (m_root (trie_none 0 :: nat trie)) ''a'' =
     Inr [Some (m_root (trie_none 0)), None] \<and>
   key_node (m_root (trie_none 0 :: nat trie)) ''a'' = None \<and>
   \<not> length [Some (m_root (trie_none 0 :: nat trie)), None] < length ''a'' + 1 \<and>
   getPath cart (m_root (trie_none 0 :: nat trie)) ''x'' = Inl (Raised LetterNotMember)"
  by (simp add: scenario node_ops getPath_def first_labelled_def)

text \<open>
  Claim C9, amended. \<open>getPath\<close> returns for every key of alphabet members, and where
  it does not return it raises for a symbol outside the alphabet. A returned path is
  the sequence of nodes visited, starting with the receiver: its element \<open>i\<close> is the
  node that the first \<open>i\<close> symbols of the key lead to, and every element but the last
  is a node. It has at most \<open>key.length() + 1\<close> elements. It ends in the null marker
  exactly when the key's node does not exist; the marker then stands for the shortest
  prefix of the key that has no node, so the length is \<open>key.length() + 1\<close> when only
  the last symbol's node is missing and less when an earlier one is. It has
  \<open>key.length() + 1\<close> elements with a non-null last one, the key's node, exactly
  when that node exists.
\<close>

theorem getPath_length_last:
  "(isKeyCorrect A key \<longrightarrow> (\<exists>path. getPath A n key = Inr path)) \<and>
   (\<forall>e. getPath A n key = Inl e \<longrightarrow> e = Raised LetterNotMember \<and> \<not> isKeyCorrect A key) \<and>
   (\<forall>path. getPath A n key = Inr path \<longrightarrow>
      path \<noteq> [] \<and> hd path = Some n \<and> length path \<le> length key + 1 \<and>
      (\<forall>i<length path. path ! i = key_node n (take i key)) \<and>
      (\<forall>i. Suc i < length path \<longrightarrow> path ! i \<noteq> None) \<and>
      ((last path = None) = (key_node n key = None)) \<and>
      ((length path = length key + 1 \<and> last path \<noteq> None) = (key_node n key \<noteq> None)) \<and>
      (key_node n key \<noteq> None \<longrightarrow> last path = key_node n key) \<and>
      (key_node n key = None \<longrightarrow>
         key_node n (take (length path - 1) key) = None \<and>
         (\<forall>i<length path - 1. key_node n (take i key) \<noteq> None)) \<and>
      (key \<noteq> [] \<and> key_node n (butlast key) \<noteq> None \<and> key_node n key = None \<longrightarrow>
         length path = length key + 1) \<and>
      (key \<noteq> [] \<and> key_node n (butlast key) = None \<longrightarrow> length path < length key + 1))"
proof -
  have ret: "\<exists>path. getPath A n key = Inr path" if "isKeyCorrect A key"
    using getPath_returns [OF that] .
  have flt: "e = Raised LetterNotMember \<and> \<not> isKeyCorrect A key" if "getPath A n key = Inl e" for e
    using getPath_faults [OF that] .
  have main: "path \<noteq> [] \<and> hd path = Some n \<and> length path \<le> length key + 1 \<and>
      (\<forall>i<length path. path ! i = key_node n (take i key)) \<and>
      (\<forall>i. Suc i < length path \<longrightarrow> path ! i \<noteq> None) \<and>
      ((last path = None) = (key_node n key = None)) \<and>
      ((length path = length key + 1 \<and> last path \<noteq> None) = (key_node n key \<noteq> None)) \<and>
      (key_node n key \<noteq> None \<longrightarrow> last path = key_node n key) \<and>
      (key_node n key = None \<longrightarrow>
         key_node n (take (length path - 1) key) = None \<and>
         (\<forall>i<length path - 1. key_node n (take i key) \<noteq> None)) \<and>
      (key \<noteq> [] \<and> key_node n (butlast key) \<noteq> None \<and> key_node n key = None \<longrightarrow>
         length path = length key + 1) \<and>
      (key \<noteq> [] \<and> key_node n (butlast key) = None \<longrightarrow> length path < length key + 1)"
    if p: "getPath A n key = Inr path" for path
  proof -
    from getPath_props [OF p] have ne: "path \<noteq> []" and hd: "hd path = Some n"
      and len: "length path \<le> length key + 1" and l: "last path = node_at n key"
      and full: "node_at n key \<noteq> None \<longrightarrow> length path = length key + 1"
      by auto
    have nth: "path ! i = node_at n (take i key)" if "i < length path" for i
      using getPath_nth [OF p that] by simp
    have inner: "path ! i \<noteq> None" if "Suc i < length path" for i
    proof -
      from that have "i < length path" by simp
      from getPath_nth [OF p this, THEN conjunct2] that show ?thesis by blast
    qed
    have lastnth: "last path = node_at n (take (length path - 1) key)"
      using ne nth [of "length path - 1"] by (simp add: last_conv_nth)
    have before: "node_at n (take i key) \<noteq> None" if "i < length path - 1" for i
    proof -
      from that have "node_at n (take i key) = path ! i" using nth [of i] by simp
      with inner [of i] that show ?thesis by simp
    qed
    have first_missing: "node_at n (take (length path - 1) key) = None" if "node_at n key = None"
      using that l lastnth by simp
    have only_last: "length path = length key + 1"
      if "key \<noteq> []" and b: "node_at n (butlast key) \<noteq> None" and m: "node_at n key = None"
    proof (rule ccontr)
      assume "length path \<noteq> length key + 1"
      with len have "length path - 1 \<le> length key - 1" by simp
      from node_at_take_None [OF first_missing [OF m] this] b show False
        by (simp add: butlast_conv_take)
    qed
    have earlier: "length path < length key + 1"
      if k: "key \<noteq> []" and b: "node_at n (butlast key) = None"
    proof (rule ccontr)
      assume "\<not> length path < length key + 1"
      with len have e: "length path = length key + 1" by simp
      with k have "length key - 1 < length path - 1" by (cases key) auto
      from before [OF this] b show False by (simp add: butlast_conv_take)
    qed
    show ?thesis
      using ne hd len l full nth inner before first_missing only_last earlier
      by (auto simp: node_at_key_node [symmetric])
  qed
  from ret flt main show ?thesis by blast
qed

text \<open>
  In the trie that holds \<open>cat\<close> and \<open>car\<close>: the key \<open>car\<close>, whose node exists; the
  key \<open>caa\<close>, for which only the last symbol's node is missing; and the key \<open>tar\<close>,
  for which the first one is.
\<close>

theorem getPath_length_last_witness:
  "isKeyCorrect cart ''car'' \<and> key_node (m_root (trie_cat_car (5::nat) 7)) ''car'' \<noteq> None \<and>
   (\<exists>path. getPath cart (m_root (trie_cat_car (5::nat) 7)) ''car'' = Inr path \<and>
      length path = length ''car'' + 1 \<and>
      last path = Some (Node 4 (Some 2) no_slots (Some 7) CHR ''r'')) \<and>
   isKeyCorrect cart ''caa'' \<and> key_node (m_root (trie_cat_car (5::nat) 7)) ''caa'' = None \<and>
   key_node (m_root (trie_cat_car (5::nat) 7)) (butlast ''caa'') \<noteq> None \<and>
   (\<exists>path. getPath cart (m_root (trie_cat_car (5::nat) 7)) ''caa'' = Inr path \<and>
      length path = length ''caa'' + 1 \<and> last path = None) \<and>
   isKeyCorrect cart ''tar'' \<and> key_node (m_root (trie_cat_car (5::nat) 7)) (butlast ''tar'') = None \<and>
   (\<exists>path. getPath cart (m_root (trie_cat_car (5::nat) 7)) ''tar'' = Inr path \<and>
      length path < length ''tar'' + 1 \<and> last path = None)"
proof -
  let ?r = "m_root (trie_cat_car (5::nat) 7)"
  have k: "isKeyCorrect cart ''car''" "isKeyCorrect cart ''caa''" "isKeyCorrect cart ''tar''"
    by (simp_all add: cart_def isInAlphabet_def)
  have n1: "key_node ?r ''car'' = Some (Node 4 (Some 2) no_slots (Some 7) CHR ''r'')"
    by (simp add: scenario first_labelled_def)
  have n2: "key_node ?r ''caa'' = None" "key_node ?r (butlast ''caa'') \<noteq> None"
    by (simp_all add: scenario first_labelled_def)
  have n3: "key_node ?r (butlast ''tar'') = None" "key_node ?r ''tar'' = None"
    by (simp_all add: scenario first_labelled_def)
  note t1 = getPath_length_last [of cart "''car''" ?r]
  note t2 = getPath_length_last [of cart "''caa''" ?r]
  note t3 = getPath_length_last [of cart "''tar''" ?r]
  from t1 k(1) obtain p1 where p1: "getPath cart ?r ''car'' = Inr p1" by blast
  from t1 p1 n1 have a: "length p1 = length ''car'' + 1 \<and>
      last p1 = Some (Node 4 (Some 2) no_slots (Some 7) CHR ''r'')"
    by (metis option.distinct(1))
  from t2 k(2) obtain p2 where p2: "getPath cart ?r ''caa'' = Inr p2" by blast
  have ne2: "''caa'' \<noteq> []" by simp
  from t2 p2 n2 ne2 have b: "length p2 = length ''caa'' + 1 \<and> last p2 = None"
    by blast
  from t3 k(3) obtain p3 where p3: "getPath cart ?r ''tar'' = Inr p3" by blast
  have ne3: "''tar'' \<noteq> []" by simp
  from t3 p3 n3 ne3 have c: "length p3 < length ''tar'' + 1 \<and> last p3 = None"
    by blast
  from k n1 n2 n3 p1 a p2 b p3 c show ?thesis by auto
qed

section \<open>Key not found\<close>

text \<open>
  Claim C6. For a key of alphabet members, \<open>at\<close> raises "Key not found!" exactly when
  the path of the key does not end in a node that holds a value, that is, when the key
  has no node or its node holds no value, and returns the value of the key's node
  otherwise; \<open>search\<close> returns that value or, exactly where \<open>at\<close> raises, the null
  pointer, and raises nothing. The path \<open>getPath\<close> returns ends in the key's node.
\<close>

theorem at_key_not_found_iff:
  assumes "isKeyCorrect A key"
  shows "at A t key =
           (case key_node (m_root t) key of
              None \<Rightarrow> Inl (Raised KeyNotFound)
            | Some n \<Rightarrow> (case m_value n of None \<Rightarrow> Inl (Raised KeyNotFound) | Some v \<Rightarrow> Inr v)) \<and>
         search A t key =
           Inr (case key_node (m_root t) key of None \<Rightarrow> None | Some n \<Rightarrow> m_value n) \<and>
         ((at A t key = Inl (Raised KeyNotFound)) =
            (\<not> (\<exists>n v. key_node (m_root t) key = Some n \<and> m_value n = Some v))) \<and>
         ((at A t key = Inl (Raised KeyNotFound)) = (search A t key = Inr None)) \<and>
         (\<forall>v. (at A t key = Inr v) = (search A t key = Inr (Some v))) \<and>
         (\<exists>path. getPath A (m_root t) key = Inr path \<and> path \<noteq> [] \<and>
            last path = key_node (m_root t) key)"
proof -
  obtain p where p: "getPath A (m_root t) key = Inr p"
    using getPath_returns [OF assms] by blast
  from getPath_props [OF p] have ne: "p \<noteq> []" and l: "last p = node_at (m_root t) key"
    by auto
  show ?thesis
    using p ne l
    by (auto simp: at_node_at [OF assms] search_node_at [OF assms] node_at_key_node
          split: option.splits)
qed

text \<open>
  In the trie that holds \<open>cat\<close> with 5 and \<open>car\<close> with 7: the key \<open>cat\<close> holds a
  value, the key \<open>ca\<close> ends in a node without value, and the key \<open>tar\<close> has no
  node.
\<close>

theorem at_key_not_found_iff_witness:
  "isKeyCorrect cart ''cat'' \<and>
   at cart (trie_cat_car (5::nat) 7) ''cat'' = Inr 5 \<and>
   search cart (trie_cat_car (5::nat) 7) ''cat'' = Inr (Some 5) \<and>
   isKeyCorrect cart ''ca'' \<and>
   at cart (trie_cat_car (5::nat) 7) ''ca'' = Inl (Raised KeyNotFound) \<and>
   search cart (trie_cat_car (5::nat) 7) ''ca'' = Inr None \<and>
   isKeyCorrect cart ''tar'' \<and>
   at cart (trie_cat_car (5::nat) 7) ''tar'' = Inl (Raised KeyNotFound) \<and>
   search cart (trie_cat_car (5::nat) 7) ''tar'' = Inr None"
proof -
  let ?t = "trie_cat_car (5::nat) 7"
  have k: "isKeyCorrect cart ''cat''" "isKeyCorrect cart ''ca''" "isKeyCorrect cart ''tar''"
    by (simp_all add: cart_def isInAlphabet_def)
  have n1: "key_node (m_root ?t) ''cat'' = Some (Node 3 (Some 2) no_slots (Some 5) CHR ''t'')"
    by (simp add: scenario first_labelled_def)
  have n2: "key_node (m_root ?t) ''ca'' =
      Some (Node 2 (Some 1)
        [None, None, Some (Node 4 (Some 2) no_slots (Some 7) CHR ''r''),
         Some (Node 3 (Some 2) no_slots (Some 5) CHR ''t'')] None CHR ''a'')"
    by (simp add: scenario first_labelled_def)
  have n3: "key_node (m_root ?t) ''tar'' = None"
    by (simp add: scenario first_labelled_def)
  have a: "at cart ?t ''cat'' = Inr 5 \<and> search cart ?t ''cat'' = Inr (Some 5)"
    using at_key_not_found_iff [OF k(1), of ?t] unfolding n1 by simp
  have b: "at cart ?t ''ca'' = Inl (Raised KeyNotFound) \<and> search cart ?t ''ca'' = Inr None"
    using at_key_not_found_iff [OF k(2), of ?t] unfolding n2 by simp
  have c: "at cart ?t ''tar'' = Inl (Raised KeyNotFound) \<and> search cart ?t ''tar'' = Inr None"
    using at_key_not_found_iff [OF k(3), of ?t] unfolding n3 by simp
  from k a b c show ?thesis by blast
qed

end
